theory Spec2Isabelle
  imports Main "HOL-Library.Sublist"
begin

section \<open>The notification subsystem of \<^verbatim>\<open>src/js/notifications.js\<close>\<close>

text \<open>
  The embedding follows the two classes \<^verbatim>\<open>NotificationManager\<close> and
  \<^verbatim>\<open>Notification\<close>. JavaScript objects live in a store (\<open>heap\<close>, a function from
  object references, with the allocation pointer \<open>nextRef\<close>), the manager's \<^verbatim>\<open>Map\<close> is
  an insertion-ordered association list from identifier to reference, and the event loop is explicit: pending \<^verbatim>\<open>setTimeout\<close>
  callbacks, pending promise reactions (microtasks) and the handler promises returned by
  \<^verbatim>\<open>preConfirm\<close>/\<^verbatim>\<open>preDeny\<close> are fields of the state. Every operation is a state
  transformer that also returns the exception it throws, if any; the state it returns on a
  throw is the partially updated one, as in JavaScript.

  DOM work that influences no control flow (class lists, inner HTML, focus timeouts) is
  reduced to the flag \<open>attached\<close>. User callbacks are opaque: a hook is absent, returns, or
  throws, and does not call back into the manager.
\<close>

subsection \<open>Data\<close>

type_synonym ref = nat
type_synonym ident = string
type_synonym val = nat

datatype exn = TypeError string | Thrown val

text \<open>A lifecycle callback of the option bag: \<^verbatim>\<open>null\<close>, a function that returns, or one that throws.\<close>

datatype hook = Absent | Returns | Throws val

text \<open>What \<^verbatim>\<open>preConfirm()\<close> / \<^verbatim>\<open>preDeny()\<close> does: returns a plain value, returns a
  \<^verbatim>\<open>Promise\<close> (settled later by the environment), or throws.\<close>

datatype handler = HReturns val | HPromise | HThrows val

record options =
  timer :: "nat option"
  allowOutsideClick :: bool
  allowEscapeKey :: bool
  animation :: bool
  animationDuration :: nat
  preConfirm :: "handler option"
  preDeny :: "handler option"
  didOpen :: hook
  didClose :: hook
  willOpen :: hook
  willClose :: hook
  didRender :: hook
  didDestroy :: hook

text \<open>The object passed to \<^verbatim>\<open>this.resolve\<close>: \<^verbatim>\<open>{isConfirmed: true}\<close>,
  \<^verbatim>\<open>{isDenied: true, value}\<close>, ...; \<open>None\<close> is an absent key.\<close>

record outcome =
  isConfirmed :: "bool option"
  isDenied :: "bool option"
  "value" :: "val option"

text \<open>An outcome with exactly one of the two flags set: the other key is absent.\<close>

definition exactly_one_flag :: "outcome \<Rightarrow> bool" where
  "exactly_one_flag out \<longleftrightarrow>
     (isConfirmed out = Some True \<and> isDenied out = None) \<or>
     (isConfirmed out = None \<and> isDenied out = Some True)"

datatype promise_state = Pending | Fulfilled outcome | Rejected exn

text \<open>A \<^verbatim>\<open>Notification\<close> object. \<open>promiseThen\<close> is the reaction list of \<open>this.promise\<close> as far
  as this file registers reactions: whether \<^verbatim>\<open>processQueue\<close> has attached its continuation.\<close>

record notification =
  options :: options
  nid :: ident
  attached :: bool
  timerId :: "nat option"
  isOpen :: bool
  isClosing :: bool
  promise :: promise_state
  promiseThen :: bool

datatype task = CloseTask ref | DestroyTask ref

datatype action = ConfirmAction | DenyAction

datatype microtask = QueueContinuation | CatchReject ref exn

datatype callback =
    WillOpen ref | DidOpen ref | WillClose ref | DidClose ref | DidRender ref | DidDestroy ref
  | PreConfirm ref | PreDeny ref

record world =
  heap :: "ref \<Rightarrow> notification"
  nextRef :: nat
  notifications :: "(ident \<times> ref) list"
  queue :: "options list"
  isProcessing :: bool
  maxNotifications :: nat
  timeouts :: "(nat \<times> nat \<times> task) list"
  nextTimeout :: nat
  deferreds :: "(ref \<times> action) list"
  microtasks :: "microtask list"
  randoms :: "nat \<Rightarrow> ident"
  drawn :: nat
  calls :: "callback list"

type_synonym jsmethod = "world \<Rightarrow> exn option \<times> world"

definition defaultOptions :: options where
  "defaultOptions =
     \<lparr>timer = None, allowOutsideClick = True, allowEscapeKey = True, animation = True,
      animationDuration = 300, preConfirm = None, preDeny = None, didOpen = Absent,
      didClose = Absent, willOpen = Absent, willClose = Absent, didRender = Absent,
      didDestroy = Absent\<rparr>"

text \<open>The state after \<^verbatim>\<open>new NotificationManager()\<close>, given the stream of identifiers that
  \<^verbatim>\<open>generateId\<close> will draw from \<^verbatim>\<open>Math.random\<close>. No object is allocated; the cells of
  the store beyond \<open>nextRef\<close> hold a placeholder on which nothing is ever called.\<close>

definition blank :: notification where
  "blank =
     \<lparr>options = defaultOptions, nid = [], attached = False, timerId = None, isOpen = False,
      isClosing = False, promise = Pending, promiseThen = False\<rparr>"

definition init :: "(nat \<Rightarrow> ident) \<Rightarrow> world" where
  "init rnd =
     \<lparr>heap = (\<lambda>_. blank), nextRef = 0, notifications = [], queue = [], isProcessing = False,
      maxNotifications = 5, timeouts = [], nextTimeout = 1, deferreds = [], microtasks = [], randoms = rnd,
      drawn = 0, calls = []\<rparr>"

text \<open>A stream of pairwise distinct identifiers, for running the model on concrete inputs.\<close>

definition ids :: "nat \<Rightarrow> ident" where
  "ids n = ''notification_'' @ replicate n (CHR ''a'')"

subsection \<open>Plumbing\<close>

definition obj :: "world \<Rightarrow> ref \<Rightarrow> notification" where
  "obj s r = heap s r"

definition upd :: "ref \<Rightarrow> (notification \<Rightarrow> notification) \<Rightarrow> world \<Rightarrow> world" where
  "upd r f s = s\<lparr>heap := (heap s)(r := f (heap s r))\<rparr>"

definition andThen :: "jsmethod \<Rightarrow> jsmethod \<Rightarrow> jsmethod" where
  "andThen f g s = (case f s of (Some e, s') \<Rightarrow> (Some e, s') | (None, s') \<Rightarrow> g s')"

definition call_hook :: "hook \<Rightarrow> callback \<Rightarrow> jsmethod" where
  "call_hook h c s =
     (case h of
        Absent \<Rightarrow> (None, s)
      | Returns \<Rightarrow> (None, s\<lparr>calls := calls s @ [c]\<rparr>)
      | Throws e \<Rightarrow> (Some (Thrown e), s\<lparr>calls := calls s @ [c]\<rparr>))"

definition throws :: "hook \<Rightarrow> bool" where
  "throws h = (case h of Throws e \<Rightarrow> True | _ \<Rightarrow> False)"

text \<open>What a call of the hook \<open>h\<close> as callback \<open>c\<close> adds to the call log: nothing when
  the option is not set (\<^verbatim>\<open>if (this.options.didOpen)\<close> ...), one entry when it is, whether
  the function returns or throws.\<close>

definition logged :: "hook \<Rightarrow> callback \<Rightarrow> callback list" where
  "logged h c = (case h of Absent \<Rightarrow> [] | _ \<Rightarrow> [c])"

text \<open>\<^verbatim>\<open>setTimeout(task, delay)\<close>: a fresh positive handle, the callback pending.\<close>

definition setTimeout :: "task \<Rightarrow> nat \<Rightarrow> world \<Rightarrow> nat \<times> world" where
  "setTimeout t delay s =
     (nextTimeout s,
      s\<lparr>timeouts := timeouts s @ [(nextTimeout s, delay, t)], nextTimeout := Suc (nextTimeout s)\<rparr>)"

definition clearTimeout :: "nat \<Rightarrow> world \<Rightarrow> world" where
  "clearTimeout h s = s\<lparr>timeouts := filter (\<lambda>(h', _). h' \<noteq> h) (timeouts s)\<rparr>"

text \<open>\<^verbatim>\<open>Map.prototype.set\<close>, \<^verbatim>\<open>delete\<close> and \<^verbatim>\<open>get\<close> on the insertion-ordered map: a
  key already present keeps its position.\<close>

definition map_set :: "ident \<Rightarrow> ref \<Rightarrow> (ident \<times> ref) list \<Rightarrow> (ident \<times> ref) list" where
  "map_set k v m =
     (if k \<in> fst ` set m then map (\<lambda>(k', v'). if k' = k then (k', v) else (k', v')) m
      else m @ [(k, v)])"

definition map_delete :: "ident \<Rightarrow> (ident \<times> ref) list \<Rightarrow> (ident \<times> ref) list" where
  "map_delete k m = filter (\<lambda>(k', _). k' \<noteq> k) m"

definition map_get :: "ident \<Rightarrow> (ident \<times> ref) list \<Rightarrow> ref option" where
  "map_get k m = map_of m k"

subsection \<open>class Notification\<close>

definition generateId :: "world \<Rightarrow> ident \<times> world" where
  "generateId s = (randoms s (drawn s), s\<lparr>drawn := Suc (drawn s)\<rparr>)"

text \<open>\<^verbatim>\<open>create()\<close>: builds the elements, appends them to the container, calls \<^verbatim>\<open>didRender\<close>.\<close>

definition create :: "ref \<Rightarrow> jsmethod" where
  "create r s =
     call_hook (didRender (options (obj s r))) (DidRender r) (upd r (\<lambda>n. n\<lparr>attached := True\<rparr>) s)"

definition startTimer :: "ref \<Rightarrow> world \<Rightarrow> world" where
  "startTimer r s =
     (case setTimeout (CloseTask r) (case timer (options (obj s r)) of None \<Rightarrow> 0 | Some d \<Rightarrow> d) s of
        (h, s') \<Rightarrow> upd r (\<lambda>n. n\<lparr>timerId := Some h\<rparr>) s')"

definition clearTimer :: "ref \<Rightarrow> world \<Rightarrow> world" where
  "clearTimer r s =
     (case timerId (obj s r) of
        None \<Rightarrow> s
      | Some h \<Rightarrow> upd r (\<lambda>n. n\<lparr>timerId := None\<rparr>) (clearTimeout h s))"

text \<open>\<^verbatim>\<open>if (this.options.timer)\<close>: \<^verbatim>\<open>null\<close> and \<^verbatim>\<open>0\<close> are falsy.\<close>

definition truthy :: "nat option \<Rightarrow> bool" where
  "truthy t = (case t of None \<Rightarrow> False | Some n \<Rightarrow> n \<noteq> 0)"

definition n_open :: "ref \<Rightarrow> jsmethod" where
  "n_open r s =
     (if isOpen (obj s r) then (None, s)
      else
        andThen (call_hook (willOpen (options (obj s r))) (WillOpen r))
          (\<lambda>s1.
             let s2 = upd r (\<lambda>n. n\<lparr>isOpen := True\<rparr>) s1;
                 s3 = (if truthy (timer (options (obj s2 r))) then startTimer r s2 else s2)
             in call_hook (didOpen (options (obj s3 r))) (DidOpen r) s3)
          s)"

definition destroy :: "ref \<Rightarrow> jsmethod" where
  "destroy r s =
     andThen (call_hook (didClose (options (obj s r))) (DidClose r))
       (\<lambda>s1.
          let s2 = upd r (\<lambda>n. n\<lparr>attached := False\<rparr>) s1;
              s3 = s2\<lparr>notifications := map_delete (nid (obj s2 r)) (notifications s2)\<rparr>
          in call_hook (didDestroy (options (obj s3 r))) (DidDestroy r) s3)
       s"

definition close :: "ref \<Rightarrow> jsmethod" where
  "close r s =
     (if isClosing (obj s r) \<or> \<not> isOpen (obj s r) then (None, s)
      else
        andThen (call_hook (willClose (options (obj s r))) (WillClose r))
          (\<lambda>s1.
             let s2 = clearTimer r s1
             in if animation (options (obj s2 r))
                then (None, snd (setTimeout (DestroyTask r) (animationDuration (options (obj s2 r))) s2))
                else destroy r s2)
          (upd r (\<lambda>n. n\<lparr>isClosing := True\<rparr>) s))"

text \<open>\<^verbatim>\<open>this.resolve\<close> and \<^verbatim>\<open>this.reject\<close>: only the first settlement of a promise counts.
  Fulfilment schedules the reaction that \<^verbatim>\<open>processQueue\<close> attached with \<^verbatim>\<open>.then(cb)\<close>;
  that call passes no rejection callback, so a rejection schedules nothing of this file.\<close>

definition resolve :: "ref \<Rightarrow> outcome \<Rightarrow> world \<Rightarrow> world" where
  "resolve r out s =
     (if promise (obj s r) = Pending
      then (let s1 = upd r (\<lambda>n. n\<lparr>promise := Fulfilled out\<rparr>) s
            in if promiseThen (obj s r) then s1\<lparr>microtasks := microtasks s1 @ [QueueContinuation]\<rparr>
               else s1)
      else s)"

definition reject :: "ref \<Rightarrow> exn \<Rightarrow> world \<Rightarrow> world" where
  "reject r e s =
     (if promise (obj s r) = Pending then upd r (\<lambda>n. n\<lparr>promise := Rejected e\<rparr>) s else s)"

text \<open>\<^verbatim>\<open>confirm()\<close> and \<^verbatim>\<open>deny()\<close>. With a handler that returns a \<^verbatim>\<open>Promise\<close>, the
  reactions \<^verbatim>\<open>result.then(...).catch(...)\<close> are registered and run when the environment
  settles that promise (\<open>settle\<close> below). \<^verbatim>\<open>showLoader\<close> only rewrites inner HTML.\<close>

definition confirm :: "ref \<Rightarrow> jsmethod" where
  "confirm r s =
     (case preConfirm (options (obj s r)) of
        None \<Rightarrow>
          close r (resolve r \<lparr>isConfirmed = Some True, isDenied = None, value = None\<rparr> s)
      | Some h \<Rightarrow>
          (let s1 = s\<lparr>calls := calls s @ [PreConfirm r]\<rparr>
           in case h of
                HThrows e \<Rightarrow> (Some (Thrown e), s1)
              | HPromise \<Rightarrow> (None, s1\<lparr>deferreds := deferreds s1 @ [(r, ConfirmAction)]\<rparr>)
              | HReturns v \<Rightarrow>
                  close r (resolve r \<lparr>isConfirmed = Some True, isDenied = None, value = Some v\<rparr> s1)))"

definition deny :: "ref \<Rightarrow> jsmethod" where
  "deny r s =
     (case preDeny (options (obj s r)) of
        None \<Rightarrow>
          close r (resolve r \<lparr>isConfirmed = None, isDenied = Some True, value = None\<rparr> s)
      | Some h \<Rightarrow>
          (let s1 = s\<lparr>calls := calls s @ [PreDeny r]\<rparr>
           in case h of
                HThrows e \<Rightarrow> (Some (Thrown e), s1)
              | HPromise \<Rightarrow> (None, s1\<lparr>deferreds := deferreds s1 @ [(r, DenyAction)]\<rparr>)
              | HReturns v \<Rightarrow>
                  close r (resolve r \<lparr>isConfirmed = None, isDenied = Some True, value = Some v\<rparr> s1)))"

definition handleAction :: "string \<Rightarrow> ref \<Rightarrow> jsmethod" where
  "handleAction a r s =
     (if a = ''confirm'' then confirm r s else if a = ''deny'' then deny r s else (None, s))"

text \<open>The reactions of a handler promise. Fulfilled with \<open>v\<close>: the \<^verbatim>\<open>then\<close> callback resolves and
  closes; an exception thrown there rejects the derived promise, whose \<^verbatim>\<open>catch\<close> callback (a
  later microtask) calls \<^verbatim>\<open>this.reject\<close>. Rejected with \<open>e\<close>: the \<^verbatim>\<open>catch\<close> callback calls
  \<^verbatim>\<open>this.reject(e)\<close> and nothing else.\<close>

definition action_outcome :: "action \<Rightarrow> val \<Rightarrow> outcome" where
  "action_outcome a v =
     (case a of
        ConfirmAction \<Rightarrow> \<lparr>isConfirmed = Some True, isDenied = None, value = Some v\<rparr>
      | DenyAction \<Rightarrow> \<lparr>isConfirmed = None, isDenied = Some True, value = Some v\<rparr>)"

definition settled :: "ref \<Rightarrow> action \<Rightarrow> exn + val \<Rightarrow> world \<Rightarrow> world" where
  "settled r a res s =
     (case res of
        Inr v \<Rightarrow>
          (case close r (resolve r (action_outcome a v) s) of
             (Some e, s') \<Rightarrow> s'\<lparr>microtasks := microtasks s' @ [CatchReject r e]\<rparr>
           | (None, s') \<Rightarrow> s')
      | Inl e \<Rightarrow> reject r e s)"

subsection \<open>class NotificationManager\<close>

definition getTopNotification :: "world \<Rightarrow> ref option" where
  "getTopNotification s =
     (case notifications s of [] \<Rightarrow> None | _ # _ \<Rightarrow> Some (snd (last (notifications s))))"

text \<open>The entries of the mapping whose instance is open and not yet closing, in insertion
  order.\<close>

definition openEntries :: "world \<Rightarrow> (ident \<times> ref) list" where
  "openEntries s =
     filter (\<lambda>(k, r). isOpen (obj s r) \<and> \<not> isClosing (obj s r)) (notifications s)"

text \<open>The two listeners of \<^verbatim>\<open>bindGlobalEvents\<close>: \<^verbatim>\<open>keydown\<close> with the pressed key, \<^verbatim>\<open>click\<close>
  with the class list of the event target.\<close>

definition on_keydown :: "string \<Rightarrow> jsmethod" where
  "on_keydown key s =
     (if key = ''Escape''
      then (case getTopNotification s of
              None \<Rightarrow> (None, s)
            | Some topNotification \<Rightarrow>
                if allowEscapeKey (options (obj s topNotification))
                then close topNotification s else (None, s))
      else (None, s))"

definition on_click :: "string list \<Rightarrow> jsmethod" where
  "on_click classList s =
     (if ''notification-backdrop'' \<in> set classList
      then (case getTopNotification s of
              None \<Rightarrow> (None, s)
            | Some topNotification \<Rightarrow>
                if allowOutsideClick (options (obj s topNotification))
                then close topNotification s else (None, s))
      else (None, s))"

text \<open>\<^verbatim>\<open>new Notification(manager, options)\<close>: allocate, \<^verbatim>\<open>create()\<close>, \<^verbatim>\<open>open()\<close>. A throwing
  hook makes the constructor throw; the object then stays in the store (its element and its
  timer may already exist) but no reference to it is returned.\<close>

definition new_Notification :: "options \<Rightarrow> world \<Rightarrow> (exn + ref) \<times> world" where
  "new_Notification opts s =
     (case generateId s of
        (i, s1) \<Rightarrow>
          (let r = nextRef s1;
               s2 = s1\<lparr>heap := (heap s1)(r :=
                        \<lparr>options = opts, nid = i, attached = False, timerId = None,
                         isOpen = False, isClosing = False, promise = Pending,
                         promiseThen = False\<rparr>),
                      nextRef := Suc r\<rparr>
           in case andThen (create r) (n_open r) s2 of
                (Some e, s3) \<Rightarrow> (Inl e, s3)
              | (None, s3) \<Rightarrow> (Inr r, s3)))"

text \<open>\<^verbatim>\<open>fire(options)\<close>; the argument is the option bag after the merge with
  \<^verbatim>\<open>defaultOptions\<close>. The result is the reference of the notification whose promise is
  returned.\<close>

definition fire :: "options \<Rightarrow> world \<Rightarrow> (exn + ref) \<times> world" where
  "fire opts s =
     (case new_Notification opts s of
        (Inl e, s1) \<Rightarrow> (Inl e, s1)
      | (Inr r, s1) \<Rightarrow>
          (let s2 = s1\<lparr>notifications := map_set (nid (obj s1 r)) r (notifications s1)\<rparr>
           in if length (notifications s2) > maxNotifications s2
              then (case notifications s2 of
                      [] \<Rightarrow> (Inr r, s2)
                    | (_, oldestNotification) # _ \<Rightarrow>
                        (case close oldestNotification s2 of
                           (Some e, s3) \<Rightarrow> (Inl e, s3)
                         | (None, s3) \<Rightarrow> (Inr r, s3)))
              else (Inr r, s2)))"

text \<open>\<^verbatim>\<open>closeAll()\<close>: \<^verbatim>\<open>Map.prototype.forEach\<close> visits the entries in insertion order; an
  entry deletes at most itself while it is visited, and a throwing callback ends the loop.\<close>

fun closeEach :: "ref list \<Rightarrow> jsmethod" where
  "closeEach [] s = (None, s)"
| "closeEach (r # rs) s =
     (case close r s of (Some e, s') \<Rightarrow> (Some e, s') | (None, s') \<Rightarrow> closeEach rs s')"

definition closeAll :: jsmethod where
  "closeAll s = closeEach (map snd (notifications s)) s"

definition getNotification :: "ident \<Rightarrow> world \<Rightarrow> ref option" where
  "getNotification i s = map_get i (notifications s)"

text \<open>\<^verbatim>\<open>update(id, options)\<close>: \<^verbatim>\<open>Object.assign(this.options, options)\<close> is the function
  \<open>assign\<close> on option bags; \<^verbatim>\<open>buildContent\<close> only rewrites inner HTML.\<close>

definition update :: "ident \<Rightarrow> (options \<Rightarrow> options) \<Rightarrow> world \<Rightarrow> world" where
  "update i assign s =
     (case map_get i (notifications s) of
        None \<Rightarrow> s
      | Some r \<Rightarrow> upd r (\<lambda>n. n\<lparr>options := assign (options n)\<rparr>) s)"

text \<open>\<^verbatim>\<open>promise.then(cb)\<close> as \<^verbatim>\<open>processQueue\<close> calls it: on a pending promise the reaction
  is stored, on a fulfilled one it is scheduled at once, on a rejected one it never runs.\<close>

definition then_continue :: "ref \<Rightarrow> world \<Rightarrow> world" where
  "then_continue r s =
     (case promise (obj s r) of
        Pending \<Rightarrow> upd r (\<lambda>n. n\<lparr>promiseThen := True\<rparr>) s
      | Fulfilled _ \<Rightarrow> s\<lparr>microtasks := microtasks s @ [QueueContinuation]\<rparr>
      | Rejected _ \<Rightarrow> s)"

definition processQueue :: jsmethod where
  "processQueue s =
     (if isProcessing s \<or> queue s = [] then (None, s)
      else
        (case fire (hd (queue s)) (s\<lparr>isProcessing := True, queue := tl (queue s)\<rparr>) of
           (Inl e, s1) \<Rightarrow> (Some e, s1)
         | (Inr r, s1) \<Rightarrow> (None, then_continue r s1)))"

text \<open>The body of the prototype function \<^verbatim>\<open>queue(options)\<close>.\<close>

definition queue_method :: "options \<Rightarrow> jsmethod" where
  "queue_method opts s = processQueue (s\<lparr>queue := queue s @ [opts]\<rparr>)"

text \<open>The call \<^verbatim>\<open>notificationManager.queue(options)\<close>, which is what the exported
  \<^verbatim>\<open>queue\<close> does. The constructor assigns \<^verbatim>\<open>this.queue = []\<close>; this own property hides
  the prototype function of the same name, so the callee is an array and the call throws.\<close>

definition call_queue :: "options \<Rightarrow> jsmethod" where
  "call_queue opts s = (Some (TypeError ''notificationManager.queue is not a function''), s)"

subsection \<open>The event loop\<close>

text \<open>What the environment can do between two turns of the event loop. \<open>Queue\<close> runs the body
  of the prototype function \<^verbatim>\<open>queue\<close> on the manager, \<open>CallQueue\<close> is the call
  \<^verbatim>\<open>notificationManager.queue(options)\<close> of the exported API; \<open>Confirm\<close>, \<open>Deny\<close> and
  \<open>Close\<close> are calls on an instance (its close button calls \<^verbatim>\<open>close()\<close>); \<open>Action\<close> is a click
  on a button with that \<^verbatim>\<open>data-action\<close>; \<open>Timeout h\<close> is the expiry of the pending timeout
  with handle \<open>h\<close>; \<open>Settle k res\<close> settles the \<open>k\<close>-th pending handler promise.\<close>

datatype event =
    Fire options
  | Queue options
  | CallQueue options
  | ProcessQueue
  | CloseAll
  | Update ident "options \<Rightarrow> options"
  | Keydown string
  | Click "string list"
  | Action string ref
  | Confirm ref
  | Deny ref
  | Close ref
  | Timeout nat
  | Settle nat "exn + val"

text \<open>The events whose handlers call \<^verbatim>\<open>this.resolve\<close> or \<^verbatim>\<open>this.reject\<close>: the confirm and
  deny paths and the reactions of their handler promises.\<close>

fun settles :: "event \<Rightarrow> bool" where
  "settles (Confirm r) = True"
| "settles (Deny r) = True"
| "settles (Action a r) = True"
| "settles (Settle k res) = True"
| "settles _ = False"

definition run_task :: "task \<Rightarrow> jsmethod" where
  "run_task t s = (case t of CloseTask r \<Rightarrow> close r s | DestroyTask r \<Rightarrow> destroy r s)"

definition on_timeout :: "nat \<Rightarrow> jsmethod" where
  "on_timeout h s =
     (case map_of (timeouts s) h of
        None \<Rightarrow> (None, s)
      | Some (_, t) \<Rightarrow> run_task t (clearTimeout h s))"

definition on_settle :: "nat \<Rightarrow> exn + val \<Rightarrow> world \<Rightarrow> world" where
  "on_settle k res s =
     (if k < length (deferreds s)
      then (case deferreds s ! k of
              (r, a) \<Rightarrow>
                settled r a res (s\<lparr>deferreds := take k (deferreds s) @ drop (Suc k) (deferreds s)\<rparr>))
      else s)"

definition dispatch :: "event \<Rightarrow> jsmethod" where
  "dispatch ev s =
     (case ev of
        Fire opts \<Rightarrow> (case fire opts s of (Inl e, s') \<Rightarrow> (Some e, s') | (Inr _, s') \<Rightarrow> (None, s'))
      | Queue opts \<Rightarrow> queue_method opts s
      | CallQueue opts \<Rightarrow> call_queue opts s
      | ProcessQueue \<Rightarrow> processQueue s
      | CloseAll \<Rightarrow> closeAll s
      | Update i assign \<Rightarrow> (None, update i assign s)
      | Keydown key \<Rightarrow> on_keydown key s
      | Click classList \<Rightarrow> on_click classList s
      | Action a r \<Rightarrow> (if r < nextRef s then handleAction a r s else (None, s))
      | Confirm r \<Rightarrow> (if r < nextRef s then confirm r s else (None, s))
      | Deny r \<Rightarrow> (if r < nextRef s then deny r s else (None, s))
      | Close r \<Rightarrow> (if r < nextRef s then close r s else (None, s))
      | Timeout h \<Rightarrow> on_timeout h s
      | Settle k res \<Rightarrow> (None, on_settle k res s))"

text \<open>A microtask. The continuation of \<^verbatim>\<open>processQueue\<close> is
  \<^verbatim>\<open>() => { this.isProcessing = false; this.processQueue(); }\<close>; an exception in it only
  rejects the promise that \<^verbatim>\<open>then\<close> returned, which nobody holds.\<close>

definition run_microtask :: "microtask \<Rightarrow> world \<Rightarrow> world" where
  "run_microtask m s =
     (case m of
        QueueContinuation \<Rightarrow> snd (processQueue (s\<lparr>isProcessing := False\<rparr>))
      | CatchReject r e \<Rightarrow> reject r e s)"

subsection \<open>What the instance methods leave alone\<close>

text \<open>Closed forms of the plumbing, and the projections of the state that \<^verbatim>\<open>create\<close>,
  \<^verbatim>\<open>open\<close>, \<^verbatim>\<open>close\<close>, \<^verbatim>\<open>destroy\<close> and \<^verbatim>\<open>fire\<close> never write: \<open>mgr\<close> collects the manager's
  queue fields, \<open>sig\<close> the fields of an instance that only the promise machinery and
  \<^verbatim>\<open>update\<close> touch.\<close>

lemma call_hook_fst: "fst (call_hook h c s) = (case h of Throws e \<Rightarrow> Some (Thrown e) | _ \<Rightarrow> None)"
  by (simp add: call_hook_def split: hook.splits)

lemma call_hook_snd: "snd (call_hook h c s) = s\<lparr>calls := calls s @ (case h of Absent \<Rightarrow> [] | _ \<Rightarrow> [c])\<rparr>"
  by (simp add: call_hook_def split: hook.splits)

lemma andThen_if: "andThen f g s = (if fst (f s) = None then g (snd (f s)) else f s)"
  by (cases "f s") (auto simp: andThen_def split: option.splits)

lemma upd_fields [simp]:
  "heap (upd r f s) = (heap s)(r := f (heap s r))"
  "nextRef (upd r f s) = nextRef s"
  "notifications (upd r f s) = notifications s"
  "queue (upd r f s) = queue s"
  "isProcessing (upd r f s) = isProcessing s"
  "maxNotifications (upd r f s) = maxNotifications s"
  "timeouts (upd r f s) = timeouts s"
  "nextTimeout (upd r f s) = nextTimeout s"
  "deferreds (upd r f s) = deferreds s"
  "microtasks (upd r f s) = microtasks s"
  "randoms (upd r f s) = randoms s"
  "drawn (upd r f s) = drawn s"
  "calls (upd r f s) = calls s"
  by (simp_all add: upd_def)

lemma wrap_result:
  "(case m of (None, s3) \<Rightarrow> (Inr r, s3) | (Some e, s3) \<Rightarrow> (Inl e, s3)) =
   ((case fst m of None \<Rightarrow> Inr r | Some e \<Rightarrow> Inl e), snd m)"
  by (cases m; cases "fst m"; simp)

lemmas prim_defs = andThen_if call_hook_snd clearTimer_def clearTimeout_def setTimeout_def
  startTimer_def obj_def Let_def

definition mgr :: "world \<Rightarrow> options list \<times> bool \<times> microtask list \<times> (ref \<times> action) list \<times> nat \<times> (nat \<Rightarrow> ident)" where
  "mgr s = (queue s, isProcessing s, microtasks s, deferreds s, maxNotifications s, randoms s)"

definition sig :: "notification \<Rightarrow> promise_state \<times> bool \<times> ident \<times> options" where
  "sig n = (promise n, promiseThen n, nid n, options n)"

lemma mgr_simps [simp]:
  "mgr (upd r f s) = mgr s"
  "mgr (s\<lparr>heap := hp\<rparr>) = mgr s"
  "mgr (s\<lparr>nextRef := k\<rparr>) = mgr s"
  "mgr (s\<lparr>notifications := ns\<rparr>) = mgr s"
  "mgr (s\<lparr>timeouts := ts\<rparr>) = mgr s"
  "mgr (s\<lparr>nextTimeout := k\<rparr>) = mgr s"
  "mgr (s\<lparr>drawn := k\<rparr>) = mgr s"
  "mgr (s\<lparr>calls := cs\<rparr>) = mgr s"
  by (simp_all add: mgr_def)

lemma sig_simps [simp]:
  "sig (n\<lparr>attached := b\<rparr>) = sig n"
  "sig (n\<lparr>timerId := t\<rparr>) = sig n"
  "sig (n\<lparr>isOpen := b\<rparr>) = sig n"
  "sig (n\<lparr>isClosing := b\<rparr>) = sig n"
  by (simp_all add: sig_def)

lemma create_frame [simp]:
  "mgr (snd (create r s)) = mgr s"
  "nextRef (snd (create r s)) = nextRef s"
  "notifications (snd (create r s)) = notifications s"
  "sig (heap (snd (create r s)) r') = sig (heap s r')"
  "isOpen (heap (snd (create r s)) r') = isOpen (heap s r')"
  "isClosing (heap (snd (create r s)) r') = isClosing (heap s r')"
  "r' \<noteq> r \<Longrightarrow> heap (snd (create r s)) r' = heap s r'"
  by (simp_all add: create_def prim_defs)

lemma n_open_frame [simp]:
  "mgr (snd (n_open r s)) = mgr s"
  "nextRef (snd (n_open r s)) = nextRef s"
  "notifications (snd (n_open r s)) = notifications s"
  "sig (heap (snd (n_open r s)) r') = sig (heap s r')"
  "isClosing (heap (snd (n_open r s)) r') = isClosing (heap s r')"
  "r' \<noteq> r \<Longrightarrow> heap (snd (n_open r s)) r' = heap s r'"
  by (simp_all add: n_open_def prim_defs)


lemma destroy_frame [simp]:
  "mgr (snd (destroy r s)) = mgr s"
  "nextRef (snd (destroy r s)) = nextRef s"
  "sig (heap (snd (destroy r s)) r') = sig (heap s r')"
  "isOpen (heap (snd (destroy r s)) r') = isOpen (heap s r')"
  "isClosing (heap (snd (destroy r s)) r') = isClosing (heap s r')"
  "r' \<noteq> r \<Longrightarrow> heap (snd (destroy r s)) r' = heap s r'"
  by (simp_all add: destroy_def prim_defs)

lemma close_frame [simp]:
  "mgr (snd (close r s)) = mgr s"
  "nextRef (snd (close r s)) = nextRef s"
  "sig (heap (snd (close r s)) r') = sig (heap s r')"
  "isOpen (heap (snd (close r s)) r') = isOpen (heap s r')"
  "r' \<noteq> r \<Longrightarrow> heap (snd (close r s)) r' = heap s r'"
  by (simp_all add: close_def prim_defs split: option.splits)

lemma close_isClosing:
  "isClosing (heap (snd (close r s)) r') = (isClosing (heap s r') \<or> (r' = r \<and> isOpen (heap s r)))"
  by (auto simp add: close_def prim_defs split: option.splits)

definition alloc :: "options \<Rightarrow> world \<Rightarrow> world" where
  "alloc opts s =
     s\<lparr>drawn := Suc (drawn s),
       heap := (heap s)(nextRef s :=
                 \<lparr>options = opts, nid = randoms s (drawn s), attached = False, timerId = None,
                  isOpen = False, isClosing = False, promise = Pending, promiseThen = False\<rparr>),
       nextRef := Suc (nextRef s)\<rparr>"

lemma new_snd:
  "snd (new_Notification opts s) = snd (andThen (create (nextRef s)) (n_open (nextRef s)) (alloc opts s))"
  by (simp add: new_Notification_def generateId_def Let_def alloc_def split: prod.splits option.splits)

lemma new_fst:
  "fst (new_Notification opts s) =
     (case fst (andThen (create (nextRef s)) (n_open (nextRef s)) (alloc opts s)) of
        None \<Rightarrow> Inr (nextRef s) | Some e \<Rightarrow> Inl e)"
  by (simp add: new_Notification_def generateId_def Let_def alloc_def split: prod.splits option.splits)

lemma new_frame [simp]:
  "mgr (snd (new_Notification opts s)) = mgr s"
  "nextRef (snd (new_Notification opts s)) = Suc (nextRef s)"
  "notifications (snd (new_Notification opts s)) = notifications s"
  "r' \<noteq> nextRef s \<Longrightarrow> heap (snd (new_Notification opts s)) r' = heap s r'"
  "sig (heap (snd (new_Notification opts s)) (nextRef s)) = (Pending, False, randoms s (drawn s), opts)"
  "isClosing (heap (snd (new_Notification opts s)) (nextRef s)) = False"
  by (simp_all add: new_snd andThen_if alloc_def) (simp_all add: sig_def)?


lemma fire_snd:
  "snd (fire opts s) =
     (case fst (new_Notification opts s) of
        Inl e \<Rightarrow> snd (new_Notification opts s)
      | Inr r \<Rightarrow>
          (let s1 = snd (new_Notification opts s);
               s2 = s1\<lparr>notifications := map_set (nid (obj s1 r)) r (notifications s1)\<rparr>
           in if length (notifications s2) > maxNotifications s2
              then (case notifications s2 of [] \<Rightarrow> s2 | (_, oldest) # _ \<Rightarrow> snd (close oldest s2))
              else s2))"
  by (cases "new_Notification opts s")
     (auto simp: fire_def Let_def split: sum.splits list.splits prod.splits option.splits)

lemma new_Inr: "new_Notification opts s = (Inr r, b) \<Longrightarrow> r = nextRef s"
  using new_fst [of opts s] by (auto split: option.splits)

lemma fire_fst:
  "fst (fire opts s) = Inr r \<Longrightarrow> r = nextRef s \<and> fst (new_Notification opts s) = Inr r"
  by (cases "new_Notification opts s")
     (auto simp: fire_def Let_def dest: new_Inr split: sum.splits list.splits prod.splits option.splits if_splits)

lemma fire_frame [simp]:
  "mgr (snd (fire opts s)) = mgr s"
  "nextRef (snd (fire opts s)) = Suc (nextRef s)"
  "sig (heap (snd (fire opts s)) r') =
     (if r' = nextRef s then (Pending, False, randoms s (drawn s), opts) else sig (heap s r'))"
  by (auto simp: fire_snd Let_def split: sum.splits list.splits)

lemma mgr_fields:
  "mgr s' = mgr s \<Longrightarrow> queue s' = queue s \<and> isProcessing s' = isProcessing s \<and> microtasks s' = microtasks s
     \<and> deferreds s' = deferreds s \<and> maxNotifications s' = maxNotifications s \<and> randoms s' = randoms s"
  by (simp add: mgr_def)

lemma sig_fields:
  "sig n' = sig n \<Longrightarrow> promise n' = promise n \<and> promiseThen n' = promiseThen n \<and> nid n' = nid n \<and> options n' = options n"
  by (simp add: sig_def)

lemma processQueue_measure:
  "length (queue (snd (processQueue s))) < length (queue s) \<or>
   (queue (snd (processQueue s)) = queue s \<and> microtasks (snd (processQueue s)) = microtasks s)"
proof (cases "isProcessing s \<or> queue s = []")
  case True
  then show ?thesis by (simp add: processQueue_def)
next
  case False
  let ?s0 = "s\<lparr>isProcessing := True, queue := tl (queue s)\<rparr>"
  have "queue (snd (fire (hd (queue s)) ?s0)) = tl (queue s)"
    using mgr_fields [OF fire_frame(1) [of "hd (queue s)" ?s0]] by simp
  moreover have "queue (snd (processQueue s)) = queue (snd (fire (hd (queue s)) ?s0))"
    using False
    by (cases "fire (hd (queue s)) ?s0")
       (auto simp: processQueue_def then_continue_def split: sum.splits promise_state.splits)
  ultimately show ?thesis using False by (cases "queue s") auto
qed

lemma run_microtask_measure:
  "length (queue (run_microtask m s)) < length (queue s) \<or>
   (queue (run_microtask m s) = queue s \<and> microtasks (run_microtask m s) = microtasks s)"
proof (cases m)
  case QueueContinuation
  then show ?thesis
    using processQueue_measure [of "s\<lparr>isProcessing := False\<rparr>"]
    by (simp add: run_microtask_def)
next
  case (CatchReject r e)
  then show ?thesis by (simp add: run_microtask_def reject_def)
qed


subsection \<open>Draining the microtask queue, and one turn of the event loop\<close>

text \<open>After the handler of an event has run, the microtasks run in order until none is left.
  A continuation of \<^verbatim>\<open>processQueue\<close> can schedule a further microtask only after it has
  taken an entry off \<open>queue\<close>, which is why the loop ends.\<close>

function drain :: "world \<Rightarrow> world" where
  "drain s =
     (case microtasks s of
        [] \<Rightarrow> s
      | m # ms \<Rightarrow> drain (run_microtask m (s\<lparr>microtasks := ms\<rparr>)))"
  by pat_completeness auto
termination
proof (relation "measures [\<lambda>s. length (queue s), \<lambda>s. length (microtasks s)]")
  show "wf (measures [\<lambda>s. length (queue s), \<lambda>s. length (microtasks s)])" by simp
next
  fix s :: world and m ms
  assume "microtasks s = m # ms"
  then show "(run_microtask m (s\<lparr>microtasks := ms\<rparr>), s)
      \<in> measures [\<lambda>s. length (queue s), \<lambda>s. length (microtasks s)]"
    using run_microtask_measure [of m "s\<lparr>microtasks := ms\<rparr>"] by auto
qed

declare drain.simps [simp del]

definition step :: "event \<Rightarrow> jsmethod" where
  "step ev s = (case dispatch ev s of (x, s') \<Rightarrow> (x, drain s'))"

fun run :: "event list \<Rightarrow> world \<Rightarrow> world" where
  "run [] s = s"
| "run (ev # evs) s = run evs (snd (step ev s))"

lemma drain_Nil: "microtasks s = [] \<Longrightarrow> drain s = s"
  by (simp add: drain.simps)

lemma drain_Cons:
  "microtasks s = m # ms \<Longrightarrow> drain s = drain (run_microtask m (s\<lparr>microtasks := ms\<rparr>))"
  by (subst drain.simps) simp

text \<open>The defining equations, for running the model on a concrete state.\<close>

lemmas eval_defs =
  init_def ids_def blank_def defaultOptions_def step_def dispatch_def fire_def
  new_Notification_def generateId_def create_def n_open_def close_def destroy_def confirm_def
  deny_def handleAction_def settled_def action_outcome_def on_settle_def on_timeout_def
  run_task_def on_keydown_def on_click_def getTopNotification_def closeAll_def update_def
  processQueue_def queue_method_def call_queue_def then_continue_def run_microtask_def
  resolve_def reject_def andThen_def call_hook_def upd_def obj_def truthy_def map_set_def
  map_delete_def map_get_def setTimeout_def clearTimeout_def clearTimer_def startTimer_def
  drain_Nil drain_Cons Let_def

lemma call_hook_None: "(fst (call_hook h c s) = None) = (\<not> throws h)"
  by (simp add: call_hook_def throws_def split: hook.splits)

lemma destroy_notifications:
  "notifications (snd (destroy r s)) =
     (if throws (didClose (options (heap s r))) then notifications s
      else map_delete (nid (heap s r)) (notifications s))"
  by (simp add: destroy_def prim_defs call_hook_None)

lemma close_notifications_eq:
  "notifications (snd (close r s)) =
     (if isClosing (heap s r) \<or> \<not> isOpen (heap s r) \<or> throws (willClose (options (heap s r))) \<or>
         animation (options (heap s r)) \<or> throws (didClose (options (heap s r)))
      then notifications s
      else map_delete (nid (heap s r)) (notifications s))"
  by (simp add: close_def destroy_notifications prim_defs call_hook_None split: option.splits)

lemma close_notifications:
  "notifications (snd (close r s)) = notifications s \<or>
   notifications (snd (close r s)) = map_delete (nid (obj s r)) (notifications s)"
  by (simp add: close_notifications_eq obj_def)

lemma close_keeps_entry:
  "(k, r') \<in> set (notifications s) \<Longrightarrow> k \<noteq> nid (obj s r) \<Longrightarrow>
   (k, r') \<in> set (notifications (snd (close r s)))"
  using close_notifications [of r s] by (auto simp: map_delete_def)

lemma sig_promise: "sig n' = sig n \<Longrightarrow> promise n' = promise n"
  by (simp add: sig_def)

lemma sig_promiseThen: "sig n' = sig n \<Longrightarrow> promiseThen n' = promiseThen n"
  by (simp add: sig_def)

lemma sig_nid: "sig n' = sig n \<Longrightarrow> nid n' = nid n"
  by (simp add: sig_def)

lemma sig_options: "sig n' = sig n \<Longrightarrow> options n' = options n"
  by (simp add: sig_def)

lemmas close_sig [simp] =
  sig_promise [OF close_frame(3)] sig_promiseThen [OF close_frame(3)]
  sig_nid [OF close_frame(3)] sig_options [OF close_frame(3)]

lemmas destroy_sig [simp] =
  sig_promise [OF destroy_frame(3)] sig_promiseThen [OF destroy_frame(3)]
  sig_nid [OF destroy_frame(3)] sig_options [OF destroy_frame(3)]

lemmas close_mgr [simp] = mgr_fields [OF close_frame(1)]
lemmas destroy_mgr [simp] = mgr_fields [OF destroy_frame(1)]
lemmas fire_mgr [simp] = mgr_fields [OF fire_frame(1)]
lemmas new_mgr [simp] = mgr_fields [OF new_frame(1)]

lemma fire_old:
  "r' \<noteq> nextRef s \<Longrightarrow> sig (heap (snd (fire opts s)) r') = sig (heap s r')"
  by simp

lemma fire_sig [simp]:
  "r' \<noteq> nextRef s \<Longrightarrow> promise (heap (snd (fire opts s)) r') = promise (heap s r')"
  "r' \<noteq> nextRef s \<Longrightarrow> promiseThen (heap (snd (fire opts s)) r') = promiseThen (heap s r')"
  "r' \<noteq> nextRef s \<Longrightarrow> nid (heap (snd (fire opts s)) r') = nid (heap s r')"
  "r' \<noteq> nextRef s \<Longrightarrow> options (heap (snd (fire opts s)) r') = options (heap s r')"
  "promise (heap (snd (fire opts s)) (nextRef s)) = Pending"
  "promiseThen (heap (snd (fire opts s)) (nextRef s)) = False"
  "nid (heap (snd (fire opts s)) (nextRef s)) = randoms s (drawn s)"
  "options (heap (snd (fire opts s)) (nextRef s)) = opts"
  using fire_frame(3) [of opts s r'] fire_frame(3) [of opts s "nextRef s"]
  by (simp_all add: sig_def)

lemma resolve_frame [simp]:
  "nextRef (resolve r out s) = nextRef s"
  "notifications (resolve r out s) = notifications s"
  "timeouts (resolve r out s) = timeouts s"
  "queue (resolve r out s) = queue s"
  "isProcessing (resolve r out s) = isProcessing s"
  "deferreds (resolve r out s) = deferreds s"
  "maxNotifications (resolve r out s) = maxNotifications s"
  "isOpen (heap (resolve r out s) r') = isOpen (heap s r')"
  "isClosing (heap (resolve r out s) r') = isClosing (heap s r')"
  "promiseThen (heap (resolve r out s) r') = promiseThen (heap s r')"
  "nid (heap (resolve r out s) r') = nid (heap s r')"
  "options (heap (resolve r out s) r') = options (heap s r')"
  "timerId (heap (resolve r out s) r') = timerId (heap s r')"
  "r' \<noteq> r \<Longrightarrow> heap (resolve r out s) r' = heap s r'"
  by (simp_all add: resolve_def obj_def Let_def)

lemma resolve_promise:
  "promise (heap (resolve r out s) r') =
     (if r' = r \<and> promise (heap s r) = Pending then Fulfilled out else promise (heap s r'))"
  by (simp add: resolve_def obj_def Let_def)

lemma resolve_microtasks:
  "microtasks (resolve r out s) =
     microtasks s @ (if promise (heap s r) = Pending \<and> promiseThen (heap s r) then [QueueContinuation] else [])"
  by (simp add: resolve_def obj_def Let_def)

lemma reject_frame [simp]:
  "nextRef (reject r e s) = nextRef s"
  "notifications (reject r e s) = notifications s"
  "timeouts (reject r e s) = timeouts s"
  "mgr (reject r e s) = mgr s"
  "isOpen (heap (reject r e s) r') = isOpen (heap s r')"
  "isClosing (heap (reject r e s) r') = isClosing (heap s r')"
  "promiseThen (heap (reject r e s) r') = promiseThen (heap s r')"
  "nid (heap (reject r e s) r') = nid (heap s r')"
  "options (heap (reject r e s) r') = options (heap s r')"
  "timerId (heap (reject r e s) r') = timerId (heap s r')"
  "r' \<noteq> r \<Longrightarrow> heap (reject r e s) r' = heap s r'"
  by (simp_all add: reject_def obj_def)

lemmas reject_mgr [simp] = mgr_fields [OF reject_frame(4)]

lemma reject_promise:
  "promise (heap (reject r e s) r') =
     (if r' = r \<and> promise (heap s r) = Pending then Rejected e else promise (heap s r'))"
  by (simp add: reject_def obj_def)

lemma closeEach_frame [simp]:
  "mgr (snd (closeEach rs s)) = mgr s"
  "nextRef (snd (closeEach rs s)) = nextRef s"
  "sig (heap (snd (closeEach rs s)) r') = sig (heap s r')"
  "isOpen (heap (snd (closeEach rs s)) r') = isOpen (heap s r')"
  by (induction rs arbitrary: s; simp add: case_prod_unfold split: option.splits; metis close_frame snd_conv)+

definition quietly :: "world \<Rightarrow> world \<Rightarrow> bool" where
  "quietly s s' \<longleftrightarrow>
     mgr s' = mgr s \<and> nextRef s \<le> nextRef s' \<and>
     (\<forall>r<nextRef s.
        promise (heap s' r) = promise (heap s r) \<and> promiseThen (heap s' r) = promiseThen (heap s r) \<and>
        isOpen (heap s' r) = isOpen (heap s r) \<and> (isClosing (heap s r) \<longrightarrow> isClosing (heap s' r))) \<and>
     (\<forall>r. nextRef s \<le> r \<longrightarrow> r < nextRef s' \<longrightarrow>
        promise (heap s' r) = Pending \<and> \<not> promiseThen (heap s' r))"

lemma quietly_refl [simp]: "quietly s s"
  by (auto simp add: quietly_def)

lemma quietly_trans:
  assumes a: "quietly s s'" and b: "quietly s' s''"
  shows "quietly s s''"
proof -
  have le: "nextRef s \<le> nextRef s'" "nextRef s' \<le> nextRef s''"
    using a b by (simp_all add: quietly_def)
  have old: "promise (heap s'' r) = promise (heap s r) \<and>
      promiseThen (heap s'' r) = promiseThen (heap s r) \<and>
      isOpen (heap s'' r) = isOpen (heap s r) \<and> (isClosing (heap s r) \<longrightarrow> isClosing (heap s'' r))"
    if "r < nextRef s" for r
  proof -
    from that le have "r < nextRef s'" by simp
    with a b that show ?thesis by (simp add: quietly_def)
  qed
  have new: "promise (heap s'' r) = Pending \<and> \<not> promiseThen (heap s'' r)"
    if "nextRef s \<le> r" "r < nextRef s''" for r
  proof (cases "r < nextRef s'")
    case True
    with a b that show ?thesis by (simp add: quietly_def)
  next
    case False
    with b that show ?thesis by (simp add: quietly_def)
  qed
  have "mgr s'' = mgr s" using a b by (simp add: quietly_def)
  with le old new show ?thesis by (simp add: quietly_def)
qed

lemma quietly_close [simp]: "quietly s (snd (close r s))"
  by (simp add: quietly_def close_isClosing)

lemma quietly_destroy [simp]: "quietly s (snd (destroy r s))"
  by (simp add: quietly_def)

lemma closeEach_isClosing:
  "isClosing (heap s r') \<Longrightarrow> isClosing (heap (snd (closeEach rs s)) r')"
proof (induction rs arbitrary: s)
  case Nil
  then show ?case by simp
next
  case (Cons r rs)
  have "isClosing (heap (snd (close r s)) r')" using Cons.prems by (simp add: close_isClosing)
  then show ?case
    using Cons.IH [of "snd (close r s)"]
    by (cases "close r s") (auto split: option.splits)
qed

lemma quietly_closeEach [simp]: "quietly s (snd (closeEach rs s))"
  by (simp add: quietly_def closeEach_isClosing sig_promise [OF closeEach_frame(3)] sig_promiseThen [OF closeEach_frame(3)])

lemma quietly_closeAll [simp]: "quietly s (snd (closeAll s))"
  by (simp add: closeAll_def)

lemma quietly_on_keydown [simp]: "quietly s (snd (on_keydown key s))"
  by (simp add: on_keydown_def split: option.splits)

lemma quietly_on_click [simp]: "quietly s (snd (on_click cl s))"
  by (simp add: on_click_def split: option.splits)

lemma quietly_clearTimeout [simp]: "quietly s (clearTimeout h s)"
  by (simp add: quietly_def clearTimeout_def)

lemma quietly_on_timeout [simp]: "quietly s (snd (on_timeout h s))"
proof -
  have "quietly (clearTimeout h s) (snd (run_task t (clearTimeout h s)))" for t
    by (simp add: run_task_def split: task.splits)
  then have "quietly s (snd (run_task t (clearTimeout h s)))" for t
    using quietly_trans [OF quietly_clearTimeout] by blast
  then show ?thesis
    by (simp add: on_timeout_def split: option.splits prod.splits)
qed

lemma quietly_update [simp]: "quietly s (update i f s)"
  by (simp add: quietly_def update_def mgr_def map_get_def split: option.splits)

lemma fire_isOpen_old [simp]:
  "r' \<noteq> nextRef s \<Longrightarrow> isOpen (heap (snd (fire opts s)) r') = isOpen (heap s r')"
  by (auto simp: fire_snd Let_def split: sum.splits list.splits)

lemma fire_isClosing_old:
  "isClosing (heap s r') \<Longrightarrow> r' \<noteq> nextRef s \<Longrightarrow> isClosing (heap (snd (fire opts s)) r')"
  by (auto simp: fire_snd Let_def close_isClosing split: sum.splits list.splits)

lemma quietly_fire [simp]: "quietly s (snd (fire opts s))"
  by (auto simp add: quietly_def fire_isClosing_old less_Suc_eq_le)

definition silent :: "world \<Rightarrow> world \<Rightarrow> bool" where
  "silent s s' \<longleftrightarrow>
     nextRef s \<le> nextRef s' \<and> microtasks s' = microtasks s \<and>
     (\<forall>r<nextRef s. promise (heap s' r) = promise (heap s r)) \<and>
     (\<forall>r. nextRef s \<le> r \<longrightarrow> r < nextRef s' \<longrightarrow> promise (heap s' r) = Pending)"

lemma silent_refl [simp]: "silent s s"
  by (auto simp add: silent_def)

lemma silent_trans:
  assumes a: "silent s s'" and b: "silent s' s''"
  shows "silent s s''"
proof -
  have le: "nextRef s \<le> nextRef s'" "nextRef s' \<le> nextRef s''"
    using a b by (simp_all add: silent_def)
  have old: "promise (heap s'' r) = promise (heap s r)" if "r < nextRef s" for r
  proof -
    from that le have "r < nextRef s'" by simp
    with a b that show ?thesis by (simp add: silent_def)
  qed
  have new: "promise (heap s'' r) = Pending" if "nextRef s \<le> r" "r < nextRef s''" for r
  proof (cases "r < nextRef s'")
    case True
    with a b that show ?thesis by (simp add: silent_def)
  next
    case False
    with b that show ?thesis by (simp add: silent_def)
  qed
  have "microtasks s'' = microtasks s" using a b by (simp add: silent_def)
  with le old new show ?thesis by (simp add: silent_def)
qed

lemma quietly_silent: "quietly s s' \<Longrightarrow> silent s s'"
  by (auto simp add: quietly_def silent_def dest: mgr_fields)

lemma then_continue_Pending:
  "promise (heap s r) = Pending \<Longrightarrow> then_continue r s = upd r (\<lambda>n. n\<lparr>promiseThen := True\<rparr>) s"
  by (simp add: then_continue_def obj_def)

lemma processQueue_idle: "isProcessing s \<or> queue s = [] \<Longrightarrow> processQueue s = (None, s)"
  by (simp add: processQueue_def)

lemma processQueue_admit:
  assumes "\<not> isProcessing s" "queue s = opts # rest"
  defines "s1 \<equiv> snd (fire opts (s\<lparr>isProcessing := True, queue := rest\<rparr>))"
  shows "(fst (fire opts (s\<lparr>isProcessing := True, queue := rest\<rparr>)) = Inr (nextRef s) \<and>
          processQueue s = (None, upd (nextRef s) (\<lambda>n. n\<lparr>promiseThen := True\<rparr>) s1)) \<or>
         ((\<exists>e. fst (fire opts (s\<lparr>isProcessing := True, queue := rest\<rparr>)) = Inl e) \<and>
          snd (processQueue s) = s1 \<and> fst (processQueue s) \<noteq> None)"
proof (cases "fire opts (s\<lparr>isProcessing := True, queue := rest\<rparr>)")
  case (Pair res s')
  have s': "s' = s1" using Pair by (simp add: s1_def)
  show ?thesis
  proof (cases res)
    case (Inl e)
    with Pair assms(1,2) s' show ?thesis by (simp add: processQueue_def)
  next
    case (Inr r)
    with Pair have "fst (fire opts (s\<lparr>isProcessing := True, queue := rest\<rparr>)) = Inr r" by simp
    from fire_fst [OF this] have r: "r = nextRef s" by simp
    have "promise (heap s1 (nextRef s)) = Pending"
      using fire_sig(5) [of opts "s\<lparr>isProcessing := True, queue := rest\<rparr>"] by (simp add: s1_def)
    with Pair Inr r assms(1,2) s' show ?thesis
      by (simp add: processQueue_def then_continue_Pending)
  qed
qed

lemma silent_processQueue [simp]: "silent s (snd (processQueue s))"
proof (cases "isProcessing s \<or> queue s = []")
  case True
  then show ?thesis by (simp add: processQueue_idle)
next
  case False
  then obtain opts rest where q: "queue s = opts # rest" by (cases "queue s") auto
  let ?s0 = "s\<lparr>isProcessing := True, queue := rest\<rparr>"
  let ?s1 = "snd (fire opts ?s0)"
  have a: "silent s ?s0" by (simp add: silent_def)
  have b: "silent ?s0 ?s1" by (rule quietly_silent) simp
  have c: "silent ?s1 (upd (nextRef s) (\<lambda>n. n\<lparr>promiseThen := True\<rparr>) ?s1)"
    by (simp add: silent_def)
  from processQueue_admit [of s opts rest] False q
  have "snd (processQueue s) = ?s1 \<or> snd (processQueue s) = upd (nextRef s) (\<lambda>n. n\<lparr>promiseThen := True\<rparr>) ?s1"
    by auto
  then show ?thesis using a b c silent_trans by metis
qed

lemma silent_dispatch: "\<not> settles ev \<Longrightarrow> silent s (snd (dispatch ev s))"
proof (cases ev)
  case (Fire opts)
  have "silent s (snd (fire opts s))" by (rule quietly_silent) simp
  then show ?thesis using Fire by (auto simp add: dispatch_def split: prod.splits sum.splits)
next
  case (Queue opts)
  have "silent s (s\<lparr>queue := queue s @ [opts]\<rparr>)" by (simp add: silent_def)
  then show ?thesis using Queue silent_trans [OF _ silent_processQueue]
    by (simp add: dispatch_def queue_method_def)
next
  case (CallQueue opts)
  then show ?thesis by (simp add: dispatch_def call_queue_def)
next
  case ProcessQueue
  then show ?thesis by (simp add: dispatch_def)
next
  case CloseAll
  then show ?thesis by (simp add: dispatch_def quietly_silent)
next
  case (Update i f)
  then show ?thesis by (simp add: dispatch_def quietly_silent)
next
  case (Keydown k)
  then show ?thesis by (simp add: dispatch_def quietly_silent)
next
  case (Click cl)
  then show ?thesis by (simp add: dispatch_def quietly_silent)
next
  case (Close r)
  then show ?thesis by (simp add: dispatch_def quietly_silent)
next
  case (Timeout h)
  then show ?thesis by (simp add: dispatch_def quietly_silent)
qed simp_all

definition steady :: "world \<Rightarrow> world \<Rightarrow> bool" where
  "steady s s' \<longleftrightarrow>
     nextRef s \<le> nextRef s' \<and>
     (\<forall>r<nextRef s.
        (promise (heap s r) \<noteq> Pending \<longrightarrow> promise (heap s' r) = promise (heap s r)) \<and>
        isOpen (heap s' r) = isOpen (heap s r) \<and>
        (isClosing (heap s r) \<longrightarrow> isClosing (heap s' r)))"

lemma steady_refl [simp]: "steady s s"
  by (simp add: steady_def)

lemma steady_trans: "steady s s' \<Longrightarrow> steady s' s'' \<Longrightarrow> steady s s''"
  by (fastforce simp add: steady_def)

lemma quietly_steady: "quietly s s' \<Longrightarrow> steady s s'"
  by (simp add: quietly_def steady_def)

fun queues :: "event \<Rightarrow> bool" where
  "queues (Queue opts) = True"
| "queues ProcessQueue = True"
| "queues _ = False"

lemma dispatch_Fire: "snd (dispatch (Fire opts) s) = snd (fire opts s)"
  by (auto simp add: dispatch_def split: prod.splits sum.splits)

lemma quietly_dispatch:
  "\<not> settles ev \<Longrightarrow> \<not> queues ev \<Longrightarrow> quietly s (snd (dispatch ev s))"
  by (cases ev) (simp_all add: dispatch_Fire, simp_all add: dispatch_def call_queue_def)

lemma steady_processQueue [simp]: "steady s (snd (processQueue s))"
proof (cases "isProcessing s \<or> queue s = []")
  case True
  then show ?thesis by (simp add: processQueue_idle)
next
  case False
  then obtain opts rest where q: "queue s = opts # rest" by (cases "queue s") auto
  let ?s0 = "s\<lparr>isProcessing := True, queue := rest\<rparr>"
  let ?s1 = "snd (fire opts ?s0)"
  have a: "steady s ?s0" by (simp add: steady_def)
  have b: "steady ?s0 ?s1" by (rule quietly_steady) simp
  have c: "steady ?s1 (upd (nextRef s) (\<lambda>n. n\<lparr>promiseThen := True\<rparr>) ?s1)"
    by (simp add: steady_def)
  from processQueue_admit [of s opts rest] False q
  have "snd (processQueue s) = ?s1 \<or> snd (processQueue s) = upd (nextRef s) (\<lambda>n. n\<lparr>promiseThen := True\<rparr>) ?s1"
    by auto
  then show ?thesis using a b c steady_trans by metis
qed

lemma steady_resolve [simp]: "steady s (resolve r out s)"
  by (simp add: steady_def resolve_promise)

lemma steady_reject [simp]: "steady s (reject r e s)"
  by (simp add: steady_def reject_promise)

lemma steady_close [simp]: "steady s (snd (close r s))"
  by (simp add: quietly_steady)

lemma steady_tweak [simp]:
  "steady s (s\<lparr>calls := c\<rparr>)" "steady s (s\<lparr>deferreds := d\<rparr>)" "steady s (s\<lparr>microtasks := m\<rparr>)"
  "steady s (s\<lparr>isProcessing := b\<rparr>)"
  by (simp_all add: steady_def)

lemma steady_confirm [simp]: "steady s (snd (confirm r s))"
proof -
  have "steady s0 (snd (close r (resolve r out s0)))" for s0 out
    using steady_trans [OF steady_resolve steady_close] .
  moreover have "steady s (s\<lparr>calls := c\<rparr>)" for c by simp
  ultimately have "steady s (snd (close r (resolve r out (s\<lparr>calls := c\<rparr>))))" for c out
    using steady_trans by blast
  moreover have "steady s (s\<lparr>calls := c, deferreds := d\<rparr>)" for c d by (simp add: steady_def)
  moreover have "steady s (snd (close r (resolve r out s)))" for out
    using steady_trans [OF steady_resolve steady_close] .
  ultimately show ?thesis
    by (simp add: confirm_def Let_def split: option.splits handler.splits)
qed

lemma steady_deny [simp]: "steady s (snd (deny r s))"
proof -
  have "steady s0 (snd (close r (resolve r out s0)))" for s0 out
    using steady_trans [OF steady_resolve steady_close] .
  moreover have "steady s (s\<lparr>calls := c\<rparr>)" for c by simp
  ultimately have "steady s (snd (close r (resolve r out (s\<lparr>calls := c\<rparr>))))" for c out
    using steady_trans by blast
  moreover have "steady s (s\<lparr>calls := c, deferreds := d\<rparr>)" for c d by (simp add: steady_def)
  moreover have "steady s (snd (close r (resolve r out s)))" for out
    using steady_trans [OF steady_resolve steady_close] .
  ultimately show ?thesis
    by (simp add: deny_def Let_def split: option.splits handler.splits)
qed

lemma steady_settled [simp]: "steady s (settled r a res s)"
proof (cases res)
  case (Inl e)
  then show ?thesis by (simp add: settled_def)
next
  case (Inr v)
  let ?s1 = "snd (close r (resolve r (action_outcome a v) s))"
  have a: "steady s ?s1" using steady_trans [OF steady_resolve steady_close] .
  have "steady ?s1 (?s1\<lparr>microtasks := m\<rparr>)" for m by simp
  with a have "steady s (?s1\<lparr>microtasks := m\<rparr>)" for m using steady_trans by blast
  with a Inr show ?thesis
    by (cases "close r (resolve r (action_outcome a v) s)") (auto simp add: settled_def split: option.splits)
qed

lemma steady_on_settle [simp]: "steady s (on_settle k res s)"
proof -
  have "steady s (settled r a res (s\<lparr>deferreds := d\<rparr>))" for r a d
    using steady_trans [OF steady_tweak(2) steady_settled] .
  then show ?thesis by (simp add: on_settle_def split: prod.splits)
qed

lemma steady_dispatch: "steady s (snd (dispatch ev s))"
proof (cases "settles ev \<or> queues ev")
  case False
  then show ?thesis by (simp add: quietly_steady quietly_dispatch)
next
  case True
  have "steady s (s\<lparr>queue := q\<rparr>)" for q by (simp add: steady_def)
  then have "steady s (snd (processQueue (s\<lparr>queue := q\<rparr>)))" for q
    using steady_trans [OF _ steady_processQueue] by blast
  with True show ?thesis
    by (cases ev) (simp_all add: dispatch_def handleAction_def queue_method_def)
qed

lemma steady_run_microtask: "steady s (run_microtask m s)"
proof (cases m)
  case QueueContinuation
  have "steady s (s\<lparr>isProcessing := False\<rparr>)" by simp
  moreover have "steady (s\<lparr>isProcessing := False\<rparr>) (snd (processQueue (s\<lparr>isProcessing := False\<rparr>)))"
    by simp
  ultimately have "steady s (snd (processQueue (s\<lparr>isProcessing := False\<rparr>)))"
    by (rule steady_trans)
  then show ?thesis using QueueContinuation by (simp add: run_microtask_def)
next
  case (CatchReject r e)
  then show ?thesis by (simp add: run_microtask_def)
qed

lemma steady_drain: "steady s (drain s)"
proof (induction s rule: drain.induct)
  case (1 s)
  show ?case
  proof (cases "microtasks s")
    case Nil
    then have "drain s = s" by (rule drain_Nil)
    then show ?thesis by simp
  next
    case (Cons m ms)
    let ?s1 = "run_microtask m (s\<lparr>microtasks := ms\<rparr>)"
    have d: "drain s = drain ?s1" using Cons by (rule drain_Cons)
    have "steady s (s\<lparr>microtasks := ms\<rparr>)" by simp
    moreover have "steady (s\<lparr>microtasks := ms\<rparr>) ?s1"
      by (rule steady_run_microtask)
    moreover have "steady ?s1 (drain ?s1)"
      using "1.IH" [OF Cons] .
    ultimately have "steady s (drain ?s1)" using steady_trans by blast
    then show ?thesis unfolding d .
  qed
qed

lemma step_snd: "snd (step ev s) = drain (snd (dispatch ev s))"
  by (simp add: step_def split: prod.splits)

lemma steady_step: "steady s (snd (step ev s))"
  using steady_trans [OF steady_dispatch steady_drain] by (simp add: step_snd)

lemma microtasks_drain [simp]: "microtasks (drain s) = []"
proof (induction s rule: drain.induct)
  case (1 s)
  show ?case
  proof (cases "microtasks s")
    case Nil
    then have "drain s = s" by (rule drain_Nil)
    then show ?thesis using Nil by simp
  next
    case (Cons m ms)
    have d: "drain s = drain (run_microtask m (s\<lparr>microtasks := ms\<rparr>))"
      using Cons by (rule drain_Cons)
    show ?thesis unfolding d using "1.IH" [OF Cons] .
  qed
qed

lemma microtasks_step [simp]: "microtasks (snd (step ev s)) = []"
  by (simp add: step_snd)

lemma microtasks_run: "microtasks s = [] \<Longrightarrow> microtasks (run evs s) = []"
  by (induction evs arbitrary: s) simp_all

lemma microtasks_reachable [simp]: "microtasks (run evs (init rnd)) = []"
  by (rule microtasks_run) (simp add: init_def)

lemma silent_step:
  "\<not> settles ev \<Longrightarrow> microtasks s = [] \<Longrightarrow> silent s (snd (step ev s))"
proof -
  assume a: "\<not> settles ev" "microtasks s = []"
  then have s: "silent s (snd (dispatch ev s))" by (simp add: silent_dispatch)
  then have "microtasks (snd (dispatch ev s)) = []" using a by (simp add: silent_def)
  then have "drain (snd (dispatch ev s)) = snd (dispatch ev s)" by (rule drain_Nil)
  then show ?thesis using s by (simp add: step_snd)
qed

lemma confirm_plain:
  "preConfirm (options (obj s r)) = None \<Longrightarrow>
   confirm r s = close r (resolve r \<lparr>isConfirmed = Some True, isDenied = None, value = None\<rparr> s)"
  by (simp add: confirm_def)

lemma deny_plain:
  "preDeny (options (obj s r)) = None \<Longrightarrow>
   deny r s = close r (resolve r \<lparr>isConfirmed = None, isDenied = Some True, value = None\<rparr> s)"
  by (simp add: deny_def)

lemma resolve_then_close:
  fixes out :: outcome
  assumes "r < nextRef s" "promise (heap s r) = Pending"
    and s': "s' = drain (snd (close r (resolve r out s)))"
  shows "promise (heap s' r) = Fulfilled out \<and> (isOpen (heap s r) \<longrightarrow> isClosing (heap s' r))"
proof -
  let ?s1 = "snd (close r (resolve r out s))"
  have p: "promise (heap ?s1 r) = Fulfilled out" using assms(2) by (simp add: resolve_promise)
  have c: "isOpen (heap s r) \<longrightarrow> isClosing (heap ?s1 r)" by (simp add: close_isClosing)
  have n: "r < nextRef ?s1" using assms(1) by simp
  have "steady ?s1 s'" unfolding s' by (rule steady_drain)
  with p c n show ?thesis by (simp add: steady_def)
qed

definition shaped :: "world \<Rightarrow> bool" where
  "shaped s \<longleftrightarrow> (\<forall>r<nextRef s. \<forall>out. promise (heap s r) = Fulfilled out \<longrightarrow> exactly_one_flag out)"

lemma shaped_silent: "shaped s \<Longrightarrow> silent s s' \<Longrightarrow> shaped s'"
  unfolding shaped_def silent_def
  by (metis not_le promise_state.distinct(1))

lemma shaped_resolve: "shaped s \<Longrightarrow> exactly_one_flag out \<Longrightarrow> shaped (resolve r out s)"
  by (auto simp add: shaped_def resolve_promise split: if_splits)

lemma shaped_reject: "shaped s \<Longrightarrow> shaped (reject r e s)"
  by (auto simp add: shaped_def reject_promise split: if_splits)

lemma shaped_close: "shaped s \<Longrightarrow> shaped (snd (close r s))"
  by (simp add: shaped_def)

lemma shaped_tweak:
  "shaped s \<Longrightarrow> shaped (s\<lparr>calls := c\<rparr>)"
  "shaped s \<Longrightarrow> shaped (s\<lparr>deferreds := d\<rparr>)"
  "shaped s \<Longrightarrow> shaped (s\<lparr>microtasks := m\<rparr>)"
  "shaped s \<Longrightarrow> shaped (s\<lparr>isProcessing := b\<rparr>)"
  by (simp_all add: shaped_def)

lemma shaped_resolve_close:
  "shaped s \<Longrightarrow> exactly_one_flag out \<Longrightarrow> shaped (snd (close r (resolve r out s)))"
  by (simp add: shaped_close shaped_resolve)

lemma shaped_confirm: "shaped s \<Longrightarrow> shaped (snd (confirm r s))"
  by (simp add: confirm_def Let_def shaped_resolve_close shaped_tweak exactly_one_flag_def
      split: option.splits handler.splits)

lemma shaped_deny: "shaped s \<Longrightarrow> shaped (snd (deny r s))"
  by (simp add: deny_def Let_def shaped_resolve_close shaped_tweak exactly_one_flag_def
      split: option.splits handler.splits)

lemma exactly_one_flag_action [simp]: "exactly_one_flag (action_outcome a v)"
  by (simp add: action_outcome_def exactly_one_flag_def split: action.splits)

lemma shaped_settled: "shaped s \<Longrightarrow> shaped (settled r a res s)"
proof (cases res)
  case (Inl e)
  then show "shaped s \<Longrightarrow> ?thesis" by (simp add: settled_def shaped_reject)
next
  case (Inr v)
  assume "shaped s"
  then have "shaped (snd (close r (resolve r (action_outcome a v) s)))"
    by (simp add: shaped_resolve_close)
  then show ?thesis using Inr
    by (cases "close r (resolve r (action_outcome a v) s)")
       (auto simp add: settled_def shaped_tweak split: option.splits)
qed

lemma shaped_on_settle: "shaped s \<Longrightarrow> shaped (on_settle k res s)"
  by (simp add: on_settle_def shaped_settled shaped_tweak split: prod.splits)

lemma shaped_dispatch: "shaped s \<Longrightarrow> shaped (snd (dispatch ev s))"
proof (cases "settles ev")
  case False
  then show "shaped s \<Longrightarrow> ?thesis" using shaped_silent silent_dispatch by blast
next
  case True
  then show "shaped s \<Longrightarrow> ?thesis"
    by (cases ev)
       (simp_all add: dispatch_def handleAction_def shaped_confirm shaped_deny shaped_on_settle)
qed

lemma shaped_run_microtask: "shaped s \<Longrightarrow> shaped (run_microtask m s)"
proof (cases m)
  case QueueContinuation
  assume "shaped s"
  then have "shaped (s\<lparr>isProcessing := False\<rparr>)" by (rule shaped_tweak)
  then have "shaped (snd (processQueue (s\<lparr>isProcessing := False\<rparr>)))"
    using shaped_silent silent_processQueue by blast
  then show ?thesis using QueueContinuation by (simp add: run_microtask_def)
next
  case (CatchReject r e)
  then show "shaped s \<Longrightarrow> ?thesis" by (simp add: run_microtask_def shaped_reject)
qed

lemma shaped_drain: "shaped s \<Longrightarrow> shaped (drain s)"
proof (induction s rule: drain.induct)
  case (1 s)
  show ?case
  proof (cases "microtasks s")
    case Nil
    then have "drain s = s" by (rule drain_Nil)
    then show ?thesis using "1.prems" by simp
  next
    case (Cons m ms)
    let ?s1 = "run_microtask m (s\<lparr>microtasks := ms\<rparr>)"
    have d: "drain s = drain ?s1" using Cons by (rule drain_Cons)
    have "shaped ?s1" using "1.prems" by (simp add: shaped_run_microtask shaped_tweak)
    then have "shaped (drain ?s1)" using "1.IH" [OF Cons] by simp
    then show ?thesis unfolding d .
  qed
qed

lemma shaped_step: "shaped s \<Longrightarrow> shaped (snd (step ev s))"
  by (simp add: step_snd shaped_drain shaped_dispatch)

lemma shaped_run: "shaped s \<Longrightarrow> shaped (run evs s)"
  by (induction evs arbitrary: s) (simp_all add: shaped_step)

lemma shaped_reachable: "shaped (run evs (init rnd))"
  by (rule shaped_run) (simp add: shaped_def init_def)

lemma passive_run:
  "\<forall>ev\<in>set evs. \<not> settles ev \<Longrightarrow> microtasks s = [] \<Longrightarrow>
   \<forall>r<nextRef s. promise (heap s r) = Pending \<Longrightarrow>
   \<forall>r<nextRef (run evs s). promise (heap (run evs s) r) = Pending"
proof (induction evs arbitrary: s)
  case Nil
  then show ?case by simp
next
  case (Cons ev evs)
  have sil: "silent s (snd (step ev s))" using Cons.prems by (simp add: silent_step)
  have "\<forall>r<nextRef (snd (step ev s)). promise (heap (snd (step ev s)) r) = Pending"
  proof (intro allI impI)
    fix r assume "r < nextRef (snd (step ev s))"
    then show "promise (heap (snd (step ev s)) r) = Pending"
      using sil Cons.prems(3) by (cases "r < nextRef s") (simp_all add: silent_def)
  qed
  then show ?case using Cons.IH [of "snd (step ev s)"] Cons.prems(1) by simp
qed

lemma settled_fulfil:
  assumes r: "r < nextRef s" and p: "promise (heap s r) = Pending"
  shows "promise (heap (drain (settled r a (Inr v) s)) r) = Fulfilled (action_outcome a v) \<and>
         (isOpen (heap s r) \<longrightarrow> isClosing (heap (drain (settled r a (Inr v) s)) r))"
proof -
  let ?s1 = "snd (close r (resolve r (action_outcome a v) s))"
  let ?s2 = "settled r a (Inr v) s"
  have "?s2 = ?s1 \<or> (\<exists>m. ?s2 = ?s1\<lparr>microtasks := m\<rparr>)"
    by (cases "close r (resolve r (action_outcome a v) s)")
       (auto simp add: settled_def split: option.splits)
  then have f: "heap ?s2 = heap ?s1 \<and> nextRef ?s2 = nextRef ?s1" by auto
  have p1: "promise (heap ?s1 r) = Fulfilled (action_outcome a v)"
    using p by (simp add: resolve_promise)
  have c1: "isOpen (heap s r) \<longrightarrow> isClosing (heap ?s1 r)" by (simp add: close_isClosing)
  have n1: "r < nextRef ?s1" using r by simp
  have "steady ?s2 (drain ?s2)" by (rule steady_drain)
  with f p1 c1 n1 show ?thesis by (simp add: steady_def)
qed

lemma fire_willOpen_throws:
  assumes "\<not> throws (didRender opts)" "willOpen opts = Throws e"
  shows "fst (fire opts s) = Inl (Thrown e)"
    and "notifications (snd (fire opts s)) = notifications s"
    and "timeouts (snd (fire opts s)) = timeouts s"
    and "\<not> isOpen (obj (snd (fire opts s)) (nextRef s))"
    and "attached (obj (snd (fire opts s)) (nextRef s))"
  using assms
  by (simp_all add: fire_def new_Notification_def generateId_def create_def n_open_def andThen_def
      call_hook_def upd_def obj_def Let_def throws_def split: hook.splits)

lemma close_willClose_throws:
  assumes "isOpen (obj s r)" "\<not> isClosing (obj s r)" "willClose (options (obj s r)) = Throws e"
  shows "close r s = (Some (Thrown e), (upd r (\<lambda>n. n\<lparr>isClosing := True\<rparr>) s)\<lparr>calls := calls s @ [WillClose r]\<rparr>)"
  using assms
  by (simp add: close_def andThen_def call_hook_def obj_def upd_def)

lemma destroy_didClose_throws:
  assumes "didClose (options (obj s r)) = Throws e"
  shows "destroy r s = (Some (Thrown e), s\<lparr>calls := calls s @ [DidClose r]\<rparr>)"
  using assms
  by (simp add: destroy_def andThen_def call_hook_def obj_def)

lemma close_willClose_returns:
  assumes "isOpen (obj s r)" "\<not> isClosing (obj s r)" "willClose (options (obj s r)) = Returns"
    "animation (options (obj s r))"
  shows "fst (close r s) = None"
    and "calls (snd (close r s)) = calls s @ [WillClose r]"
    and "isClosing (obj (snd (close r s)) r)"
    and "timeouts (snd (close r s)) =
           filter (\<lambda>(h, _). Some h \<noteq> timerId (obj s r)) (timeouts s) @
           [(nextTimeout s, animationDuration (options (obj s r)), DestroyTask r)]"
  using assms
  by (auto simp add: close_def andThen_def call_hook_def obj_def upd_def clearTimer_def clearTimeout_def
      setTimeout_def Let_def split: option.splits intro!: filter_cong)

lemma reject_step:
  assumes "microtasks s = []"
  shows "mgr (snd (step (Settle k (Inl e)) s)) = mgr (s\<lparr>deferreds := deferreds (snd (step (Settle k (Inl e)) s))\<rparr>) \<and>
         nextRef (snd (step (Settle k (Inl e)) s)) = nextRef s"
proof (cases "k < length (deferreds s)")
  case False
  then show ?thesis using assms by (simp add: step_snd dispatch_def on_settle_def drain_Nil mgr_def)
next
  case True
  obtain r a where ra: "deferreds s ! k = (r, a)" by (cases "deferreds s ! k")
  let ?s0 = "s\<lparr>deferreds := take k (deferreds s) @ drop (Suc k) (deferreds s)\<rparr>"
  have "snd (dispatch (Settle k (Inl e)) s) = reject r e ?s0"
    using True ra by (simp add: dispatch_def on_settle_def settled_def)
  moreover have "microtasks (reject r e ?s0) = []" using assms by simp
  ultimately have "snd (step (Settle k (Inl e)) s) = reject r e ?s0"
    by (simp add: step_snd drain_Nil)
  then show ?thesis by (simp add: mgr_def)
qed

lemma continuation_step:
  fixes out :: outcome
  assumes m: "microtasks s = []" and r: "r < nextRef s" and p: "promise (heap s r) = Pending"
    and t: "promiseThen (heap s r)"
    and s'_def: "s' = drain (snd (close r (resolve r out s)))"
  shows "(queue s = [] \<longrightarrow> \<not> isProcessing s' \<and> nextRef s' = nextRef s \<and> queue s' = []) \<and>
         (\<forall>opts rest. queue s = opts # rest \<longrightarrow>
            isProcessing s' \<and> queue s' = rest \<and> nextRef s' = Suc (nextRef s) \<and>
            options (heap s' (nextRef s)) = opts)"
proof -
  let ?s1 = "snd (close r (resolve r out s))"
  let ?s2 = "?s1\<lparr>microtasks := [], isProcessing := False\<rparr>"
  have m1: "microtasks ?s1 = [QueueContinuation]"
    using m p t by (simp add: resolve_microtasks)
  have q1: "queue ?s1 = queue s" and n1: "nextRef ?s1 = nextRef s" by simp_all
  have d: "s' = drain (snd (processQueue ?s2))"
    unfolding s'_def using drain_Cons [OF m1] by (simp add: run_microtask_def)
  have A: "\<not> isProcessing s' \<and> nextRef s' = nextRef s \<and> queue s' = []" if e: "queue s = []"
  proof -
    have "snd (processQueue ?s2) = ?s2" using e q1 by (simp add: processQueue_idle)
    then have "s' = ?s2" using d by (simp add: drain_Nil)
    then show ?thesis using e by simp
  qed
  have B: "isProcessing s' \<and> queue s' = rest \<and> nextRef s' = Suc (nextRef s) \<and>
        options (heap s' (nextRef s)) = opts" if e: "queue s = opts # rest" for opts rest
  proof -
    let ?s0 = "?s2\<lparr>isProcessing := True, queue := rest\<rparr>"
    let ?sf = "snd (fire opts ?s0)"
    have "snd (processQueue ?s2) = ?sf \<or>
        snd (processQueue ?s2) = upd (nextRef ?s2) (\<lambda>n. n\<lparr>promiseThen := True\<rparr>) ?sf"
      using processQueue_admit [of ?s2 opts rest] e q1 by auto
    moreover have "microtasks ?sf = []" by simp
    ultimately have "s' = ?sf \<or> s' = upd (nextRef ?s2) (\<lambda>n. n\<lparr>promiseThen := True\<rparr>) ?sf"
      using d by (auto simp add: drain_Nil)
    moreover have "isProcessing ?sf \<and> queue ?sf = rest \<and> nextRef ?sf = Suc (nextRef s) \<and>
        options (heap ?sf (nextRef s)) = opts"
      using fire_sig(8) [of opts ?s0] by simp
    ultimately show ?thesis by auto
  qed
  from A B show ?thesis by blast
qed

text \<open>The five hooks of \<^verbatim>\<open>open()\<close>, \<^verbatim>\<open>close()\<close> and \<^verbatim>\<open>destroy()\<close>, one by one: what each
  transition returns, logs and leaves behind, by what its hooks do.\<close>

lemma n_open_hooks:
  assumes "\<not> isOpen (obj s r)"
  shows "fst (n_open r s) =
           (case willOpen (options (obj s r)) of
              Throws e \<Rightarrow> Some (Thrown e)
            | _ \<Rightarrow> (case didOpen (options (obj s r)) of Throws e \<Rightarrow> Some (Thrown e) | _ \<Rightarrow> None))"
    and "calls (snd (n_open r s)) =
           calls s @ logged (willOpen (options (obj s r))) (WillOpen r) @
           (if throws (willOpen (options (obj s r))) then []
            else logged (didOpen (options (obj s r))) (DidOpen r))"
    and "isOpen (obj (snd (n_open r s)) r) = (\<not> throws (willOpen (options (obj s r))))"
    and "timeouts (snd (n_open r s)) =
           timeouts s @
           (if \<not> throws (willOpen (options (obj s r))) \<and> truthy (timer (options (obj s r)))
            then [(nextTimeout s, the (timer (options (obj s r))), CloseTask r)] else [])"
  using assms
  by (auto simp add: n_open_def andThen_def call_hook_def upd_def obj_def Let_def throws_def
      logged_def startTimer_def setTimeout_def truthy_def split: hook.splits option.splits)

lemma destroy_hooks:
  shows "fst (destroy r s) =
           (case didClose (options (obj s r)) of
              Throws e \<Rightarrow> Some (Thrown e)
            | _ \<Rightarrow> (case didDestroy (options (obj s r)) of Throws e \<Rightarrow> Some (Thrown e) | _ \<Rightarrow> None))"
    and "calls (snd (destroy r s)) =
           calls s @ logged (didClose (options (obj s r))) (DidClose r) @
           (if throws (didClose (options (obj s r))) then []
            else logged (didDestroy (options (obj s r))) (DidDestroy r))"
    and "notifications (snd (destroy r s)) =
           (if throws (didClose (options (obj s r))) then notifications s
            else map_delete (nid (obj s r)) (notifications s))"
    and "attached (obj (snd (destroy r s)) r) =
           (throws (didClose (options (obj s r))) \<and> attached (obj s r))"
  by (auto simp add: destroy_def andThen_def call_hook_def upd_def obj_def Let_def throws_def
      logged_def split: hook.splits)

lemma close_hooks_animated:
  assumes "isOpen (obj s r)" "\<not> isClosing (obj s r)" "\<not> throws (willClose (options (obj s r)))"
    "animation (options (obj s r))"
  shows "fst (close r s) = None"
    and "calls (snd (close r s)) = calls s @ logged (willClose (options (obj s r))) (WillClose r)"
    and "timerId (obj (snd (close r s)) r) = None"
    and "notifications (snd (close r s)) = notifications s"
    and "timeouts (snd (close r s)) =
           filter (\<lambda>(h, _). Some h \<noteq> timerId (obj s r)) (timeouts s) @
           [(nextTimeout s, animationDuration (options (obj s r)), DestroyTask r)]"
  using assms
  by (auto simp add: close_def andThen_def call_hook_def obj_def upd_def clearTimer_def clearTimeout_def
      setTimeout_def Let_def throws_def logged_def split: option.splits hook.splits intro!: filter_cong)

lemma close_hooks_unanimated:
  assumes "isOpen (obj s r)" "\<not> isClosing (obj s r)" "\<not> throws (willClose (options (obj s r)))"
    "\<not> animation (options (obj s r))"
  shows "close r s =
           destroy r (clearTimer r ((upd r (\<lambda>n. n\<lparr>isClosing := True\<rparr>) s)
             \<lparr>calls := calls s @ logged (willClose (options (obj s r))) (WillClose r)\<rparr>))"
  using assms
  by (auto simp add: close_def andThen_def call_hook_def obj_def upd_def clearTimer_def clearTimeout_def
      Let_def throws_def logged_def split: option.splits hook.splits)

lemma fire_didOpen_throws:
  assumes "\<not> throws (didRender opts)" "\<not> throws (willOpen opts)" "didOpen opts = Throws e"
  shows "fst (fire opts s) = Inl (Thrown e)"
    and "notifications (snd (fire opts s)) = notifications s"
    and "isOpen (obj (snd (fire opts s)) (nextRef s))"
    and "timeouts (snd (fire opts s)) =
           timeouts s @
           (if truthy (timer opts) then [(nextTimeout s, the (timer opts), CloseTask (nextRef s))]
            else [])"
  using assms
  by (auto simp add: fire_def new_Notification_def generateId_def create_def n_open_def andThen_def
      call_hook_def upd_def obj_def Let_def throws_def startTimer_def setTimeout_def truthy_def
      split: hook.splits option.splits)


lemma new_hooks_return:
  assumes "\<not> throws (didRender opts)" "\<not> throws (willOpen opts)" "\<not> throws (didOpen opts)"
  shows "fst (new_Notification opts s) = Inr (nextRef s)"
    and "isOpen (obj (snd (new_Notification opts s)) (nextRef s))"
    and "calls (snd (new_Notification opts s)) =
           calls s @ logged (didRender opts) (DidRender (nextRef s)) @
           logged (willOpen opts) (WillOpen (nextRef s)) @ logged (didOpen opts) (DidOpen (nextRef s))"
  using assms
  by (auto simp add: new_Notification_def generateId_def create_def n_open_def andThen_def
      call_hook_def upd_def obj_def Let_def throws_def startTimer_def setTimeout_def truthy_def
      logged_def split: hook.splits option.splits)

lemma n_open_promise: "promise (obj (snd (n_open r s)) r') = promise (obj s r')"
  unfolding obj_def by (rule sig_promise) simp







definition opn :: "world \<Rightarrow> ident \<times> ref \<Rightarrow> bool" where
  "opn s = (\<lambda>(k, r). isOpen (heap s r) \<and> \<not> isClosing (heap s r))"


lemma opn_notifications [simp]: "opn (s\<lparr>notifications := ns\<rparr>) = opn s"
  by (simp add: opn_def)








subsection \<open>The queue admits one request at a time\<close>

text \<open>A promise that is fulfilled (settled with a value, not rejected).\<close>

definition fulfilled :: "promise_state \<Rightarrow> bool" where
  "fulfilled p = (case p of Fulfilled out \<Rightarrow> True | _ \<Rightarrow> False)"

text \<open>The instances that \<^verbatim>\<open>processQueue\<close> has created and whose promise carries its
  continuation: \<^verbatim>\<open>then_continue\<close> is called by \<^verbatim>\<open>processQueue\<close> only.\<close>

definition queued :: "world \<Rightarrow> ref \<Rightarrow> bool" where
  "queued s r \<longleftrightarrow> r < nextRef s \<and> promiseThen (obj s r)"

text \<open>An instance that is on screen as open: opened and not yet closing.\<close>

definition live :: "world \<Rightarrow> ref \<Rightarrow> bool" where
  "live s r \<longleftrightarrow> isOpen (obj s r) \<and> \<not> isClosing (obj s r)"

text \<open>The invariant of the queue, also in the middle of a turn: of two queued instances the
  older is fulfilled; a fulfilled instance that was opened is closing; at most one continuation
  is scheduled, at the head of the microtasks; when the guard \<^verbatim>\<open>isProcessing\<close> is down or a
  continuation is scheduled, every queued instance is fulfilled; the handler promises belong
  to allocated instances.\<close>

definition serial :: "world \<Rightarrow> bool" where
  "serial s \<longleftrightarrow>
     (\<forall>r1 r2. r1 < r2 \<longrightarrow> queued s r1 \<longrightarrow> queued s r2 \<longrightarrow> fulfilled (promise (heap s r1))) \<and>
     (\<forall>r<nextRef s. fulfilled (promise (heap s r)) \<longrightarrow> isOpen (heap s r) \<longrightarrow> isClosing (heap s r)) \<and>
     QueueContinuation \<notin> set (tl (microtasks s)) \<and>
     (\<not> isProcessing s \<or> QueueContinuation \<in> set (microtasks s) \<longrightarrow>
        (\<forall>r. queued s r \<longrightarrow> fulfilled (promise (heap s r)))) \<and>
     (\<forall>(r, a)\<in>set (deferreds s). r < nextRef s)"

lemma fulfilled_simps [simp]:
  "\<not> fulfilled Pending" "fulfilled (Fulfilled out)" "\<not> fulfilled (Rejected e)"
  by (simp_all add: fulfilled_def)

lemma serial_init: "serial (init rnd)"
  by (simp add: serial_def init_def queued_def)

lemma serial_quietly:
  assumes s: "serial s" and q: "quietly s s'"
  shows "serial s'"
proof -
  from q have m: "mgr s' = mgr s" and le: "nextRef s \<le> nextRef s'"
    and old: "\<And>r. r < nextRef s \<Longrightarrow> promise (heap s' r) = promise (heap s r) \<and>
        promiseThen (heap s' r) = promiseThen (heap s r) \<and>
        isOpen (heap s' r) = isOpen (heap s r) \<and> (isClosing (heap s r) \<longrightarrow> isClosing (heap s' r))"
    and new: "\<And>r. nextRef s \<le> r \<Longrightarrow> r < nextRef s' \<Longrightarrow>
        promise (heap s' r) = Pending \<and> \<not> promiseThen (heap s' r)"
    by (simp_all add: quietly_def)
  from m have f: "isProcessing s' = isProcessing s" "microtasks s' = microtasks s"
      "deferreds s' = deferreds s"
    by (simp_all add: mgr_def)
  have qd: "queued s' r \<longleftrightarrow> queued s r" for r
    using old [of r] new [of r] le by (cases "r < nextRef s") (auto simp add: queued_def obj_def)
  have pr: "promise (heap s' r) = promise (heap s r)" if "queued s r" for r
    using that old [of r] by (simp add: queued_def)
  have k2: "isClosing (heap s' r)"
    if "r < nextRef s'" "fulfilled (promise (heap s' r))" "isOpen (heap s' r)" for r
  proof (cases "r < nextRef s")
    case True
    with that old [of r] s show ?thesis by (simp add: serial_def)
  next
    case False
    with that new [of r] show ?thesis by simp
  qed
  have k5: "\<forall>(r, a)\<in>set (deferreds s'). r < nextRef s'"
    using s le by (auto simp add: serial_def f)
  from s qd pr k2 k5 show ?thesis
    unfolding serial_def f by (simp (no_asm_simp))
qed


lemma serialD1:
  "serial s \<Longrightarrow> r1 < r2 \<Longrightarrow> queued s r1 \<Longrightarrow> queued s r2 \<Longrightarrow> fulfilled (promise (heap s r1))"
  unfolding serial_def by blast

lemma serialD2:
  "serial s \<Longrightarrow> r < nextRef s \<Longrightarrow> fulfilled (promise (heap s r)) \<Longrightarrow> isOpen (heap s r) \<Longrightarrow>
   isClosing (heap s r)"
  unfolding serial_def by blast

lemma serialD3: "serial s \<Longrightarrow> QueueContinuation \<notin> set (tl (microtasks s))"
  unfolding serial_def by blast

lemma serialD4:
  "serial s \<Longrightarrow> \<not> isProcessing s \<or> QueueContinuation \<in> set (microtasks s) \<Longrightarrow> queued s r \<Longrightarrow>
   fulfilled (promise (heap s r))"
  unfolding serial_def by blast

lemma serialD5: "serial s \<Longrightarrow> (r, a) \<in> set (deferreds s) \<Longrightarrow> r < nextRef s"
  unfolding serial_def by blast

lemma serialI:
  assumes "\<And>r1 r2. r1 < r2 \<Longrightarrow> queued s r1 \<Longrightarrow> queued s r2 \<Longrightarrow> fulfilled (promise (heap s r1))"
    and "\<And>r. r < nextRef s \<Longrightarrow> fulfilled (promise (heap s r)) \<Longrightarrow> isOpen (heap s r) \<Longrightarrow>
      isClosing (heap s r)"
    and "QueueContinuation \<notin> set (tl (microtasks s))"
    and "\<And>r. \<not> isProcessing s \<or> QueueContinuation \<in> set (microtasks s) \<Longrightarrow> queued s r \<Longrightarrow>
      fulfilled (promise (heap s r))"
    and "\<And>r a. (r, a) \<in> set (deferreds s) \<Longrightarrow> r < nextRef s"
  shows "serial s"
  unfolding serial_def using assms by blast

lemma serial_fields [simp]:
  "serial (s\<lparr>calls := cs\<rparr>) = serial s"
  "serial (s\<lparr>queue := q\<rparr>) = serial s"
  "serial (s\<lparr>timeouts := ts\<rparr>) = serial s"
  by (simp_all add: serial_def queued_def obj_def)

lemma queued_fields [simp]:
  "queued (s\<lparr>calls := cs\<rparr>) = queued s"
  "queued (s\<lparr>queue := q\<rparr>) = queued s"
  "queued (s\<lparr>isProcessing := b\<rparr>) = queued s"
  "queued (s\<lparr>microtasks := ms\<rparr>) = queued s"
  "queued (s\<lparr>deferreds := ds\<rparr>) = queued s"
  by (simp_all add: queued_def obj_def fun_eq_iff)

lemma serial_processQueue:
  assumes s: "serial s" and m: "QueueContinuation \<notin> set (microtasks s)"
  shows "serial (snd (processQueue s))"
proof (cases "isProcessing s \<or> queue s = []")
  case True
  then show ?thesis using s by (simp add: processQueue_idle)
next
  case False
  then obtain opts rest where q: "queue s = opts # rest" and np: "\<not> isProcessing s"
    by (cases "queue s") auto
  let ?s0 = "s\<lparr>isProcessing := True, queue := rest\<rparr>"
  let ?s1 = "snd (fire opts ?s0)"
  have all: "\<And>r. queued s r \<Longrightarrow> fulfilled (promise (heap s r))"
    using s np by (simp add: serial_def)
  have s0: "serial ?s0" using s m by (simp add: serial_def queued_def obj_def)
  have s1: "serial ?s1" using s0 by (rule serial_quietly) simp
  have qu: "quietly ?s0 ?s1" by simp
  then have old: "\<And>r. r < nextRef s \<Longrightarrow> promise (heap ?s1 r) = promise (heap s r) \<and>
        promiseThen (heap ?s1 r) = promiseThen (heap s r)"
    and new: "\<And>r. nextRef s \<le> r \<Longrightarrow> r < nextRef ?s1 \<Longrightarrow> \<not> promiseThen (heap ?s1 r)"
    by (simp_all add: quietly_def)
  have n1: "nextRef ?s1 = Suc (nextRef s)" by simp
  have f1: "isProcessing ?s1" "microtasks ?s1 = microtasks s"
    using mgr_fields [of ?s1 ?s0] by simp_all
  from processQueue_admit [OF np q] show ?thesis
  proof
    assume "(\<exists>e. fst (fire opts ?s0) = Inl e) \<and> snd (processQueue s) = ?s1 \<and>
      fst (processQueue s) \<noteq> None"
    then show ?thesis using s1 by simp
  next
    assume "fst (fire opts ?s0) = Inr (nextRef s) \<and>
      processQueue s = (None, upd (nextRef s) (\<lambda>n. n\<lparr>promiseThen := True\<rparr>) ?s1)"
    then have e: "snd (processQueue s) = upd (nextRef s) (\<lambda>n. n\<lparr>promiseThen := True\<rparr>) ?s1"
      by simp
    let ?s2 = "upd (nextRef s) (\<lambda>n. n\<lparr>promiseThen := True\<rparr>) ?s1"
    have pn: "promise (heap ?s1 (nextRef s)) = Pending"
      using fire_sig(5) [of opts ?s0] by simp
    have h2: "promise (heap ?s2 r) = promise (heap ?s1 r)" "isOpen (heap ?s2 r) = isOpen (heap ?s1 r)"
      "isClosing (heap ?s2 r) = isClosing (heap ?s1 r)"
      "promiseThen (heap ?s2 r) = (r = nextRef s \<or> promiseThen (heap ?s1 r))" for r
      by (simp_all add: upd_def)
    have g2: "nextRef ?s2 = Suc (nextRef s)" "isProcessing ?s2" "microtasks ?s2 = microtasks s"
      "deferreds ?s2 = deferreds ?s1"
      using f1 by (simp_all add: upd_def)
    have qd: "queued ?s2 r \<longleftrightarrow> r = nextRef s \<or> queued ?s1 r" for r
      unfolding queued_def obj_def h2 g2 n1 by auto
    have qo: "queued ?s1 r \<Longrightarrow> queued s r" for r
      using old [of r] new [of r] unfolding queued_def obj_def n1
      by (cases "r < nextRef s") auto
    have fo: "queued s r \<Longrightarrow> fulfilled (promise (heap ?s1 r))" for r
      using all [of r] old [of r] by (simp add: queued_def)
    have k1: "fulfilled (promise (heap ?s2 r1))" if "r1 < r2" "queued ?s2 r1" "queued ?s2 r2" for r1 r2
    proof -
      from that(2,3) have "r1 < nextRef ?s2" "r2 < nextRef ?s2" by (simp_all add: queued_def)
      with that(1) have "r1 \<noteq> nextRef s" unfolding g2 by simp
      with that(2) have "queued ?s1 r1" unfolding qd by simp
      from fo [OF qo [OF this]] show ?thesis unfolding h2 .
    qed
    have k2: "isClosing (heap ?s2 r)"
      if "r < nextRef ?s2" "fulfilled (promise (heap ?s2 r))" "isOpen (heap ?s2 r)" for r
      using that serialD2 [OF s1, of r] unfolding h2 g2 n1 by blast
    have k3: "QueueContinuation \<notin> set (tl (microtasks ?s2))"
      using m unfolding g2 by (cases "microtasks s") auto
    have k4: "fulfilled (promise (heap ?s2 r))"
      if "\<not> isProcessing ?s2 \<or> QueueContinuation \<in> set (microtasks ?s2)" "queued ?s2 r" for r
      using that(1) m g2 by simp
    have k5: "r < nextRef ?s2" if "(r, a) \<in> set (deferreds ?s2)" for r a
      using that serialD5 [OF s1, of r a] unfolding g2 n1 by simp
    have "serial ?s2"
      by (rule serialI) (fact k1, fact k2, fact k3, fact k4, fact k5)
    then show ?thesis by (simp add: e)
  qed
qed

lemma serial_reject: "serial s \<Longrightarrow> serial (reject r e s)"
proof -
  assume s: "serial s"
  have f: "fulfilled (promise (heap (reject r e s) r')) = fulfilled (promise (heap s r'))" for r'
    by (simp add: reject_promise)
  have m: "isProcessing (reject r e s) = isProcessing s" "microtasks (reject r e s) = microtasks s"
    "deferreds (reject r e s) = deferreds s"
    using mgr_fields [of "reject r e s" s] by simp_all
  have q: "queued (reject r e s) = queued s"
    by (simp add: queued_def obj_def fun_eq_iff)
  from s show ?thesis unfolding serial_def f m q by simp
qed


lemma serial_resolve_close:
  assumes s: "serial s" and m: "microtasks s = []" and r: "r < nextRef s"
  shows "serial (snd (close r (resolve r out s)))"
proof -
  let ?s1 = "resolve r out s"
  let ?s2 = "snd (close r ?s1)"
  have mg: "mgr ?s2 = mgr ?s1" by simp
  have g: "nextRef ?s2 = nextRef s" "isProcessing ?s2 = isProcessing s"
    "deferreds ?s2 = deferreds s"
    "microtasks ?s2 =
       (if promise (heap s r) = Pending \<and> promiseThen (heap s r) then [QueueContinuation] else [])"
    using mgr_fields [OF mg] m by (simp_all add: resolve_microtasks)
  have pt: "promiseThen (heap ?s2 r') = promiseThen (heap s r')" for r'
    using sig_promiseThen [OF close_frame(3), of r ?s1 r'] by simp
  have pr: "promise (heap ?s2 r') =
      (if r' = r \<and> promise (heap s r) = Pending then Fulfilled out else promise (heap s r'))" for r'
    using sig_promise [OF close_frame(3), of r ?s1 r'] by (simp add: resolve_promise)
  have io: "isOpen (heap ?s2 r') = isOpen (heap s r')" for r'
    by simp
  have ic: "isClosing (heap ?s2 r') = (isClosing (heap s r') \<or> (r' = r \<and> isOpen (heap s r)))" for r'
    by (simp add: close_isClosing)
  have qd: "queued ?s2 = queued s"
    by (simp add: queued_def obj_def fun_eq_iff pt g)
  have mono: "fulfilled (promise (heap s r')) \<Longrightarrow> fulfilled (promise (heap ?s2 r'))" for r'
    unfolding pr by auto
  have k1: "fulfilled (promise (heap ?s2 r1))" if "r1 < r2" "queued ?s2 r1" "queued ?s2 r2" for r1 r2
    using serialD1 [OF s that(1)] that(2,3) mono unfolding qd by blast
  have k2: "isClosing (heap ?s2 r')"
    if "r' < nextRef ?s2" "fulfilled (promise (heap ?s2 r'))" "isOpen (heap ?s2 r')" for r'
  proof (cases "r' = r")
    case True
    with that(3) show ?thesis unfolding ic io by simp
  next
    case False
    with that serialD2 [OF s, of r'] show ?thesis unfolding ic io pr g by simp
  qed
  have k3: "QueueContinuation \<notin> set (tl (microtasks ?s2))"
    unfolding g by simp
  have k4: "fulfilled (promise (heap ?s2 r'))"
    if c: "\<not> isProcessing ?s2 \<or> QueueContinuation \<in> set (microtasks ?s2)" and q: "queued ?s2 r'" for r'
  proof (cases "promise (heap s r) = Pending \<and> promiseThen (heap s r)")
    case False
    with c have "\<not> isProcessing s" unfolding g by auto
    with serialD4 [OF s, of r'] q mono show ?thesis unfolding qd by blast
  next
    case True
    then have qr: "queued s r" and nf: "\<not> fulfilled (promise (heap s r))"
      using r by (simp_all add: queued_def obj_def)
    from q have q': "queued s r'" unfolding qd .
    consider "r' < r" | "r' = r" | "r < r'" by (rule linorder_cases)
    then show ?thesis
    proof cases
      case 1
      from serialD1 [OF s 1 q' qr] mono show ?thesis by blast
    next
      case 2
      with True show ?thesis unfolding pr by simp
    next
      case 3
      from serialD1 [OF s 3 qr q'] nf show ?thesis by simp
    qed
  qed
  have k5: "r' < nextRef ?s2" if "(r', a) \<in> set (deferreds ?s2)" for r' a
    using that serialD5 [OF s, of r' a] unfolding g by simp
  show ?thesis
    by (rule serialI) (fact k1, fact k2, fact k3, fact k4, fact k5)
qed

lemma serial_deferreds:
  "serial s \<Longrightarrow> \<forall>(r, a)\<in>set ds. r < nextRef s \<Longrightarrow> serial (s\<lparr>deferreds := ds\<rparr>)"
  unfolding serial_def by (simp add: obj_def queued_def)

lemma serial_catch:
  "serial s \<Longrightarrow> serial (s\<lparr>microtasks := microtasks s @ [CatchReject r e]\<rparr>)"
  unfolding serial_def by (cases "microtasks s") (simp_all add: obj_def queued_def)

lemma serial_confirm:
  assumes s: "serial s" and m: "microtasks s = []" and r: "r < nextRef s"
  shows "serial (snd (confirm r s))"
proof -
  have a: "serial (snd (close r (resolve r out (s\<lparr>calls := cs\<rparr>))))" for out cs
    by (rule serial_resolve_close) (simp_all add: s m r)
  have b: "serial (snd (close r (resolve r out s)))" for out
    by (rule serial_resolve_close) (simp_all add: s m r)
  have c: "serial (s\<lparr>calls := cs, deferreds := deferreds s @ [(r, x)]\<rparr>)" for cs x
    using serial_deferreds [of "s\<lparr>calls := cs\<rparr>" "deferreds s @ [(r, x)]"] s r
    by (auto simp add: serial_def)
  show ?thesis
    using a b c s by (simp add: confirm_def Let_def split: option.splits handler.splits)
qed

lemma serial_deny:
  assumes s: "serial s" and m: "microtasks s = []" and r: "r < nextRef s"
  shows "serial (snd (deny r s))"
proof -
  have a: "serial (snd (close r (resolve r out (s\<lparr>calls := cs\<rparr>))))" for out cs
    by (rule serial_resolve_close) (simp_all add: s m r)
  have b: "serial (snd (close r (resolve r out s)))" for out
    by (rule serial_resolve_close) (simp_all add: s m r)
  have c: "serial (s\<lparr>calls := cs, deferreds := deferreds s @ [(r, x)]\<rparr>)" for cs x
    using serial_deferreds [of "s\<lparr>calls := cs\<rparr>" "deferreds s @ [(r, x)]"] s r
    by (auto simp add: serial_def)
  show ?thesis
    using a b c s by (simp add: deny_def Let_def split: option.splits handler.splits)
qed

lemma serial_settled:
  assumes s: "serial s" and m: "microtasks s = []" and r: "r < nextRef s"
  shows "serial (settled r a res s)"
proof (cases res)
  case (Inl e)
  then show ?thesis using s by (simp add: settled_def serial_reject)
next
  case (Inr v)
  let ?s1 = "snd (close r (resolve r (action_outcome a v) s))"
  have s1: "serial ?s1" using s m r by (rule serial_resolve_close)
  have "settled r a res s = ?s1 \<or> (\<exists>e. settled r a res s = ?s1\<lparr>microtasks := microtasks ?s1 @ [CatchReject r e]\<rparr>)"
    using Inr by (cases "close r (resolve r (action_outcome a v) s)")
      (auto simp add: settled_def split: option.splits)
  with s1 serial_catch [OF s1] show ?thesis by auto
qed

lemma serial_on_settle:
  assumes s: "serial s" and m: "microtasks s = []"
  shows "serial (on_settle k res s)"
proof (cases "k < length (deferreds s)")
  case False
  then show ?thesis using s by (simp add: on_settle_def)
next
  case True
  obtain r a where ra: "deferreds s ! k = (r, a)" by (cases "deferreds s ! k")
  let ?ds = "take k (deferreds s) @ drop (Suc k) (deferreds s)"
  have "(r, a) \<in> set (deferreds s)" using True ra by (metis nth_mem)
  then have r: "r < nextRef s" by (rule serialD5 [OF s])
  have "set ?ds \<subseteq> set (deferreds s)"
    using set_take_subset [of k "deferreds s"] set_drop_subset [of "Suc k" "deferreds s"] by auto
  then have "\<forall>(r, a)\<in>set ?ds. r < nextRef s" using serialD5 [OF s] by auto
  then have "serial (s\<lparr>deferreds := ?ds\<rparr>)" by (rule serial_deferreds [OF s])
  then have "serial (settled r a res (s\<lparr>deferreds := ?ds\<rparr>))"
    by (rule serial_settled) (simp_all add: m r)
  then show ?thesis using True ra by (simp add: on_settle_def)
qed

lemma serial_dispatch:
  assumes s: "serial s" and m: "microtasks s = []"
  shows "serial (snd (dispatch ev s))"
proof (cases "settles ev \<or> queues ev")
  case False
  then have "quietly s (snd (dispatch ev s))" by (simp add: quietly_dispatch)
  with s show ?thesis by (rule serial_quietly)
next
  case True
  have pq: "serial (snd (processQueue (s\<lparr>queue := q\<rparr>)))" for q
    by (rule serial_processQueue) (simp_all add: s m)
  have pq': "serial (snd (processQueue s))"
    by (rule serial_processQueue) (simp_all add: s m)
  from True show ?thesis
    using s m pq pq'
    by (cases ev)
       (simp_all add: dispatch_def queue_method_def handleAction_def serial_confirm serial_deny
          serial_on_settle)
qed

lemma serial_run_microtask:
  assumes s: "serial s" and m: "microtasks s = x # ms"
  shows "serial (run_microtask x (s\<lparr>microtasks := ms\<rparr>))"
proof (cases x)
  case (CatchReject r e)
  have "serial (s\<lparr>microtasks := ms\<rparr>)"
    using s m unfolding serial_def by (cases ms) (auto simp add: queued_def obj_def)
  then show ?thesis using CatchReject by (simp add: run_microtask_def serial_reject)
next
  case QueueContinuation
  have n: "QueueContinuation \<notin> set ms" using serialD3 [OF s] m by simp
  have all: "\<And>r. queued s r \<Longrightarrow> fulfilled (promise (heap s r))"
    using serialD4 [OF s] m QueueContinuation by simp
  have "serial (s\<lparr>microtasks := ms, isProcessing := False\<rparr>)"
    using s n all unfolding serial_def by (cases ms) (auto simp add: queued_def obj_def)
  then have "serial (snd (processQueue (s\<lparr>microtasks := ms, isProcessing := False\<rparr>)))"
    by (rule serial_processQueue) (simp add: n)
  then show ?thesis using QueueContinuation by (simp add: run_microtask_def)
qed

lemma serial_drain: "serial s \<Longrightarrow> serial (drain s)"
proof (induction s rule: drain.induct)
  case (1 s)
  show ?case
  proof (cases "microtasks s")
    case Nil
    then show ?thesis using 1 by (simp add: drain_Nil)
  next
    case (Cons x ms)
    have d: "drain s = drain (run_microtask x (s\<lparr>microtasks := ms\<rparr>))"
      using Cons by (rule drain_Cons)
    show ?thesis
      unfolding d using Cons 1 by (simp add: serial_run_microtask)
  qed
qed

lemma serial_step: "serial s \<Longrightarrow> microtasks s = [] \<Longrightarrow> serial (snd (step ev s))"
  by (simp add: step_snd serial_drain serial_dispatch)

lemma serial_run: "serial s \<Longrightarrow> microtasks s = [] \<Longrightarrow> serial (run evs s)"
  by (induction evs arbitrary: s) (simp_all add: serial_step microtasks_step)

lemma serial_reachable: "serial (run evs (init rnd))"
  by (rule serial_run) (rule serial_init, simp add: init_def)


text \<open>What an event appends to \<^verbatim>\<open>this.queue\<close>, and the requests enqueued by a list of events,
  in order of arrival.\<close>

definition pushed :: "event \<Rightarrow> options list" where
  "pushed ev = (case ev of Queue opts \<Rightarrow> [opts] | _ \<Rightarrow> [])"

definition enqueued :: "event list \<Rightarrow> options list" where
  "enqueued evs = concat (map pushed evs)"

text \<open>Where a turn stands that started with the queue \<open>q\<close> (the request of the event
  included), \<open>n\<close> instances and the continuation marks \<open>P\<close>: either nothing has been taken
  off the queue and no instance of this turn is queued, or the head of \<open>q\<close> has been taken and
  fired as instance \<open>n\<close>, with every older queued instance fulfilled.\<close>

definition advance :: "options list \<Rightarrow> nat \<Rightarrow> (ref \<Rightarrow> bool) \<Rightarrow> world \<Rightarrow> bool" where
  "advance q n P t \<longleftrightarrow>
     n \<le> nextRef t \<and> (\<forall>r<n. promiseThen (heap t r) = P r) \<and>
     ((queue t = q \<and> (\<forall>r. n \<le> r \<longrightarrow> r < nextRef t \<longrightarrow> \<not> promiseThen (heap t r)) \<and>
       (QueueContinuation \<in> set (microtasks t) \<longrightarrow> nextRef t = n)) \<or>
      (\<exists>opts. q = opts # queue t \<and> nextRef t = Suc n \<and> options (heap t n) = opts \<and>
         isProcessing t \<and> QueueContinuation \<notin> set (microtasks t) \<and>
         (\<forall>r<n. promiseThen (heap t r) \<longrightarrow> fulfilled (promise (heap t r)))))"

lemma advance_cong: "advance q n P' t \<Longrightarrow> \<forall>r<n. P' r = P r \<Longrightarrow> advance q n P t"
  unfolding advance_def by auto

lemma advance_processQueue:
  assumes s: "serial t" and m: "QueueContinuation \<notin> set (microtasks t)"
  shows "advance (queue t) (nextRef t) (\<lambda>r. promiseThen (heap t r)) (snd (processQueue t))"
proof (cases "isProcessing t \<or> queue t = []")
  case True
  then show ?thesis using m by (simp add: processQueue_idle advance_def)
next
  case False
  then obtain opts rest where q: "queue t = opts # rest" and np: "\<not> isProcessing t"
    by (cases "queue t") auto
  let ?t0 = "t\<lparr>isProcessing := True, queue := rest\<rparr>"
  let ?t1 = "snd (fire opts ?t0)"
  let ?t2 = "upd (nextRef t) (\<lambda>n. n\<lparr>promiseThen := True\<rparr>) ?t1"
  have all: "\<And>r. queued t r \<Longrightarrow> fulfilled (promise (heap t r))"
    using serialD4 [OF s] np by simp
  have "quietly ?t0 ?t1" by simp
  then have old: "\<And>r. r < nextRef t \<Longrightarrow> promise (heap ?t1 r) = promise (heap t r) \<and>
        promiseThen (heap ?t1 r) = promiseThen (heap t r)"
    by (simp add: quietly_def)
  have f1: "nextRef ?t1 = Suc (nextRef t)" "isProcessing ?t1" "microtasks ?t1 = microtasks t"
    "queue ?t1 = rest" "options (heap ?t1 (nextRef t)) = opts"
    using mgr_fields [of ?t1 ?t0] fire_sig(8) [of opts ?t0] by simp_all
  have a1: "\<forall>r<nextRef t. promiseThen (heap ?t1 r) \<longrightarrow> fulfilled (promise (heap ?t1 r))"
    using all old by (simp add: queued_def obj_def)
  have A1: "advance (queue t) (nextRef t) (\<lambda>r. promiseThen (heap t r)) ?t1"
    unfolding advance_def using f1 a1 m q old by simp
  have f2: "nextRef ?t2 = Suc (nextRef t)" "isProcessing ?t2" "microtasks ?t2 = microtasks t"
    "queue ?t2 = rest" "options (heap ?t2 (nextRef t)) = opts"
    using f1 by (simp_all add: upd_def)
  have a2: "\<forall>r<nextRef t. promiseThen (heap ?t2 r) \<longrightarrow> fulfilled (promise (heap ?t2 r))"
    using a1 by (simp add: upd_def)
  have o2: "\<forall>r<nextRef t. promiseThen (heap ?t2 r) = promiseThen (heap t r)"
    using old by (simp add: upd_def)
  have A2: "advance (queue t) (nextRef t) (\<lambda>r. promiseThen (heap t r)) ?t2"
    unfolding advance_def using f2 a2 m q o2 by simp
  from processQueue_admit [OF np q] A1 A2 show ?thesis by auto
qed

lemma settles_frame:
  "settles ev \<Longrightarrow>
   queue (snd (dispatch ev s)) = queue s \<and> nextRef (snd (dispatch ev s)) = nextRef s \<and>
   promiseThen (heap (snd (dispatch ev s)) r') = promiseThen (heap s r')"
proof -
  assume ev: "settles ev"
  let ?F = "\<lambda>t t'. queue t' = queue t \<and> nextRef t' = nextRef t \<and>
    promiseThen (heap t' r') = promiseThen (heap t r')"
  have c: "?F t (snd (close r t))" for r t
    using mgr_fields [of "snd (close r t)" t] sig_promiseThen [OF close_frame(3), of r t r'] by simp
  have cr: "?F t (snd (close r (resolve r out t)))" for r out t
    using c [of r "resolve r out t"] by simp
  have cr': "?F t (snd (close r (resolve r out (t\<lparr>calls := cs\<rparr>))))" for r out t cs
    using cr [of r out "t\<lparr>calls := cs\<rparr>"] by simp
  have co: "?F s (snd (confirm r s))" for r
    using cr cr' by (simp add: confirm_def Let_def split: option.splits handler.splits)
  have de: "?F s (snd (deny r s))" for r
    using cr cr' by (simp add: deny_def Let_def split: option.splits handler.splits)
  have rj: "?F t (reject r e t)" for r e t
    using mgr_fields [of "reject r e t" t] by simp
  have st: "?F t (settled r a res t)" for r a res t
  proof (cases res)
    case (Inl e)
    then show ?thesis using rj [of r e t] by (simp add: settled_def)
  next
    case (Inr v)
    obtain x b where cl: "close r (resolve r (action_outcome a v) t) = (x, b)"
      by (cases "close r (resolve r (action_outcome a v) t)")
    with cr [of r "action_outcome a v" t] have "?F t b" by simp
    with cl Inr show ?thesis by (simp add: settled_def split: option.splits)
  qed
  have os: "?F s (on_settle k res s)" for k res
  proof (cases "k < length (deferreds s)")
    case False
    then show ?thesis by (simp add: on_settle_def)
  next
    case True
    obtain r a where ra: "deferreds s ! k = (r, a)" by (cases "deferreds s ! k")
    show ?thesis
      using st [of r a res "s\<lparr>deferreds := take k (deferreds s) @ drop (Suc k) (deferreds s)\<rparr>"]
        True ra
      by (simp add: on_settle_def)
  qed
  from ev show ?thesis
    using co de os by (cases ev) (simp_all add: dispatch_def handleAction_def)
qed

lemma advance_dispatch:
  assumes s: "serial s" and m: "microtasks s = []"
  shows "advance (queue s @ pushed ev) (nextRef s) (\<lambda>r. promiseThen (heap s r))
    (snd (dispatch ev s))"
proof (cases "queues ev")
  case True
  have a: "advance (queue (s\<lparr>queue := q\<rparr>)) (nextRef (s\<lparr>queue := q\<rparr>))
      (\<lambda>r. promiseThen (heap (s\<lparr>queue := q\<rparr>) r)) (snd (processQueue (s\<lparr>queue := q\<rparr>)))" for q
    by (rule advance_processQueue) (simp_all add: s m)
  have b: "advance (queue s) (nextRef s) (\<lambda>r. promiseThen (heap s r)) (snd (processQueue s))"
    by (rule advance_processQueue) (simp_all add: s m)
  from True show ?thesis
    using a b by (cases ev) (simp_all add: dispatch_def queue_method_def pushed_def)
next
  case False
  then have p: "pushed ev = []" by (cases ev) (simp_all add: pushed_def)
  show ?thesis
  proof (cases "settles ev")
    case True
    from settles_frame [OF this, of s] show ?thesis
      by (simp add: advance_def p)
  next
    case nq: False
    with False have "quietly s (snd (dispatch ev s))" by (simp add: quietly_dispatch)
    then have "mgr (snd (dispatch ev s)) = mgr s"
      and "nextRef s \<le> nextRef (snd (dispatch ev s))"
      and "\<And>r. r < nextRef s \<Longrightarrow>
        promiseThen (heap (snd (dispatch ev s)) r) = promiseThen (heap s r)"
      and "\<And>r. nextRef s \<le> r \<Longrightarrow> r < nextRef (snd (dispatch ev s)) \<Longrightarrow>
        \<not> promiseThen (heap (snd (dispatch ev s)) r)"
      by (simp_all add: quietly_def)
    with mgr_fields [of "snd (dispatch ev s)" s] m show ?thesis
      by (simp add: advance_def p)
  qed
qed

lemma serial_continue:
  assumes s: "serial s" and m: "microtasks s = QueueContinuation # ms"
  shows "serial (s\<lparr>microtasks := ms, isProcessing := False\<rparr>)" and "QueueContinuation \<notin> set ms"
proof -
  show n: "QueueContinuation \<notin> set ms" using serialD3 [OF s] m by simp
  have all: "\<And>r. queued s r \<Longrightarrow> fulfilled (promise (heap s r))"
    using serialD4 [OF s] m by simp
  show "serial (s\<lparr>microtasks := ms, isProcessing := False\<rparr>)"
    using s n all unfolding serial_def by (cases ms) (auto simp add: queued_def obj_def)
qed

lemma advance_run_microtask:
  assumes s: "serial t" and a: "advance q n P t" and m: "microtasks t = x # ms"
  shows "advance q n P (run_microtask x (t\<lparr>microtasks := ms\<rparr>))"
proof (cases x)
  case (CatchReject r e)
  let ?t' = "reject r e (t\<lparr>microtasks := ms\<rparr>)"
  have f: "queue ?t' = queue t" "isProcessing ?t' = isProcessing t" "microtasks ?t' = ms"
    "nextRef ?t' = nextRef t"
    using mgr_fields [of ?t' "t\<lparr>microtasks := ms\<rparr>"] by simp_all
  have h: "promiseThen (heap ?t' r') = promiseThen (heap t r')"
    "options (heap ?t' r') = options (heap t r')"
    "fulfilled (promise (heap ?t' r')) = fulfilled (promise (heap t r'))" for r'
    by (simp_all add: reject_promise)
  from a show ?thesis
    unfolding advance_def run_microtask_def CatchReject microtask.case f h using m by auto
next
  case QueueContinuation
  let ?t0 = "t\<lparr>microtasks := ms, isProcessing := False\<rparr>"
  from a m QueueContinuation have q: "queue t = q" and n: "nextRef t = n"
    and P: "\<forall>r<n. promiseThen (heap t r) = P r"
    by (auto simp add: advance_def)
  from serial_continue [OF s m [unfolded QueueContinuation]]
  have "advance (queue ?t0) (nextRef ?t0) (\<lambda>r. promiseThen (heap ?t0 r)) (snd (processQueue ?t0))"
    by (intro advance_processQueue) simp_all
  then have "advance q n (\<lambda>r. promiseThen (heap t r)) (snd (processQueue ?t0))"
    using q n by simp
  then have "advance q n P (snd (processQueue ?t0))"
    by (rule advance_cong) (use P in simp)
  then show ?thesis using QueueContinuation by (simp add: run_microtask_def)
qed

lemma advance_drain: "serial t \<Longrightarrow> advance q n P t \<Longrightarrow> advance q n P (drain t)"
proof (induction t rule: drain.induct)
  case (1 t)
  show ?case
  proof (cases "microtasks t")
    case Nil
    then show ?thesis using 1 by (simp add: drain_Nil)
  next
    case (Cons x ms)
    have d: "drain t = drain (run_microtask x (t\<lparr>microtasks := ms\<rparr>))"
      using Cons by (rule drain_Cons)
    show ?thesis
      unfolding d using Cons 1 by (simp add: serial_run_microtask advance_run_microtask)
  qed
qed

lemma advance_step:
  assumes s: "serial s" and m: "microtasks s = []"
  shows "advance (queue s @ pushed ev) (nextRef s) (\<lambda>r. promiseThen (heap s r)) (snd (step ev s))"
  unfolding step_snd
  by (rule advance_drain) (simp_all add: serial_dispatch advance_dispatch s m)

lemma run_snoc: "run (evs @ [ev]) s = snd (step ev (run evs s))"
  by (induction evs arbitrary: s) simp_all

lemma advance_queue: "advance q n P t \<Longrightarrow> \<exists>taken. q = taken @ queue t"
  by (auto simp add: advance_def)

lemma enqueued_run:
  "serial s \<Longrightarrow> microtasks s = [] \<Longrightarrow> \<exists>consumed. queue s @ enqueued evs = consumed @ queue (run evs s)"
proof (induction evs rule: rev_induct)
  case Nil
  then show ?case by (simp add: enqueued_def)
next
  case (snoc ev evs)
  let ?s = "run evs s"
  from snoc obtain consumed where c: "queue s @ enqueued evs = consumed @ queue ?s" by blast
  have "serial ?s" "microtasks ?s = []"
    using snoc.prems by (simp_all add: serial_run microtasks_run)
  from advance_queue [OF advance_step [OF this]]
  obtain taken where t: "queue ?s @ pushed ev = taken @ queue (snd (step ev ?s))" by blast
  have "queue s @ enqueued (evs @ [ev]) = (queue s @ enqueued evs) @ pushed ev"
    by (simp add: enqueued_def)
  also have "\<dots> = consumed @ taken @ queue (snd (step ev ?s))"
    using c t by simp
  finally show ?case by (simp add: run_snoc)
qed

lemma enqueued_reachable: "\<exists>consumed. enqueued evs = consumed @ queue (run evs (init rnd))"
  using enqueued_run [OF serial_init, of rnd evs] by (simp add: init_def)

lemma admission_step:
  assumes s: "serial s" and m: "microtasks s = []" and s'_def: "s' = snd (step ev s)"
  shows "(queue s' = queue s @ pushed ev \<and> (\<forall>r. queued s' r \<longleftrightarrow> queued s r)) \<or>
         (\<exists>opts. queue s @ pushed ev = opts # queue s' \<and> nextRef s' = Suc (nextRef s) \<and>
            options (obj s' (nextRef s)) = opts \<and> isProcessing s' \<and>
            (\<forall>r. queued s r \<longrightarrow> queued s' r \<and> fulfilled (promise (obj s' r))))"
proof -
  have a: "advance (queue s @ pushed ev) (nextRef s) (\<lambda>r. promiseThen (heap s r)) s'"
    unfolding s'_def using s m by (rule advance_step)
  then have le: "nextRef s \<le> nextRef s'"
    and old: "\<And>r. r < nextRef s \<Longrightarrow> promiseThen (heap s' r) = promiseThen (heap s r)"
    by (simp_all add: advance_def)
  from a consider
    (idle) "queue s' = queue s @ pushed ev"
      "\<And>r. nextRef s \<le> r \<Longrightarrow> r < nextRef s' \<Longrightarrow> \<not> promiseThen (heap s' r)"
    | (admit) opts where "queue s @ pushed ev = opts # queue s'" "nextRef s' = Suc (nextRef s)"
      "options (heap s' (nextRef s)) = opts" "isProcessing s'"
      "\<And>r. r < nextRef s \<Longrightarrow> promiseThen (heap s' r) \<Longrightarrow> fulfilled (promise (heap s' r))"
    unfolding advance_def by blast
  then show ?thesis
  proof cases
    case idle
    have "queued s' r \<longleftrightarrow> queued s r" for r
      using old [of r] idle(2) [of r] le
      by (cases "r < nextRef s") (auto simp add: queued_def obj_def)
    with idle(1) show ?thesis by simp
  next
    case admit
    have "queued s' r \<and> fulfilled (promise (obj s' r))" if "queued s r" for r
      using that old [of r] admit(2) admit(5) [of r] by (simp add: queued_def obj_def)
    with admit(1-4) show ?thesis by (simp add: obj_def)
  qed
qed

section \<open>The claims\<close>

subsection \<open>C9: a second close is a no-op; the timer is cancelled on the way into closing\<close>

text \<open>
  C9, as the code has it. \<^verbatim>\<open>close()\<close> returns at once, with the state untouched (no hook
  called, no promise settled, no timer scheduled), when the instance is already closing;
  \<^verbatim>\<open>isClosing\<close> is never reset, so this covers a destroyed instance too. When an open
  instance enters closing and its \<^verbatim>\<open>willClose\<close> hook does not throw, its timer handle is
  cleared and its auto-close callback is no longer pending.
\<close>

theorem close_is_idempotent_and_clears_timer:
  "(isClosing (obj s r) \<longrightarrow> close r s = (None, s)) \<and>
   (\<not> isClosing (obj s r) \<and> isOpen (obj s r) \<and>
    (\<forall>e. willClose (options (obj s r)) \<noteq> Throws e) \<longrightarrow>
      isClosing (obj (snd (close r s)) r) \<and>
      close r (snd (close r s)) = (None, snd (close r s)) \<and>
      timerId (obj (snd (close r s)) r) = None \<and>
      (\<forall>h d. timerId (obj s r) = Some h \<longrightarrow>
         (h, d, CloseTask r) \<notin> set (timeouts (snd (close r s)))))"
proof (intro conjI impI)
  assume "isClosing (obj s r)"
  then show "close r s = (None, s)" by (simp add: close_def)
next
  assume a: "\<not> isClosing (obj s r) \<and> isOpen (obj s r) \<and>
    (\<forall>e. willClose (options (obj s r)) \<noteq> Throws e)"
  then show c: "isClosing (obj (snd (close r s)) r)"
    by (simp add: close_isClosing obj_def)
  then show "close r (snd (close r s)) = (None, snd (close r s))"
    by (simp add: close_def)
  from a have nothrow:
    "fst (call_hook (willClose (options (obj s r))) (WillClose r) s0) = None" for s0
    by (simp add: call_hook_fst split: hook.splits)
  show "timerId (obj (snd (close r s)) r) = None"
    using a nothrow by (simp add: close_def destroy_def prim_defs split: option.splits)
  show "\<forall>h d. timerId (obj s r) = Some h \<longrightarrow>
      (h, d, CloseTask r) \<notin> set (timeouts (snd (close r s)))"
    using a nothrow by (auto simp add: close_def destroy_def prim_defs split: option.splits)
qed

text \<open>The theorem at a notification fired with \<^verbatim>\<open>{timer: 100}\<close>: it is open with timer
  handle 1; \<^verbatim>\<open>close()\<close> makes it closing and cancels the timer; a second \<^verbatim>\<open>close()\<close>
  changes nothing.\<close>

theorem close_is_idempotent_and_clears_timer_witness:
  "(let s = snd (step (Fire (defaultOptions\<lparr>timer := Some 100\<rparr>)) (init ids));
        s' = snd (close 0 s)
    in \<not> isClosing (obj s 0) \<and> isOpen (obj s 0) \<and> timerId (obj s 0) = Some 1 \<and>
       (1, 100, CloseTask 0) \<in> set (timeouts s) \<and>
       isClosing (obj s' 0) \<and> timerId (obj s' 0) = None \<and>
       (1, 100, CloseTask 0) \<notin> set (timeouts s') \<and> close 0 s' = (None, s'))"
proof -
  let ?s = "snd (step (Fire (defaultOptions\<lparr>timer := Some 100\<rparr>)) (init ids))"
  have h: "\<not> isClosing (obj ?s 0) \<and> isOpen (obj ?s 0) \<and>
      (\<forall>e. willClose (options (obj ?s 0)) \<noteq> Throws e)"
    by (simp add: eval_defs)
  have t: "timerId (obj ?s 0) = Some 1 \<and> (1, 100, CloseTask 0) \<in> set (timeouts ?s)"
    by (simp add: eval_defs)
  from close_is_idempotent_and_clears_timer [of ?s 0] h t
  have "isClosing (obj (snd (close 0 ?s)) 0) \<and>
      close 0 (snd (close 0 ?s)) = (None, snd (close 0 ?s)) \<and>
      timerId (obj (snd (close 0 ?s)) 0) = None \<and>
      (1, 100, CloseTask 0) \<notin> set (timeouts (snd (close 0 ?s)))"
    by blast
  with h t show ?thesis by (simp add: Let_def)
qed

text \<open>C9 as stated fails when the \<^verbatim>\<open>willClose\<close> hook throws: \<^verbatim>\<open>close()\<close> has set
  \<^verbatim>\<open>isClosing\<close> before it calls the hook and reaches \<^verbatim>\<open>clearTimer()\<close> only after it, so
  the instance is closing with its timer still armed.\<close>

theorem close_throwing_willClose_keeps_timer:
  "(let s = snd (step (Fire (defaultOptions\<lparr>timer := Some 100, willClose := Throws 0\<rparr>)) (init ids));
        s' = snd (step (Close 0) s)
    in \<not> isClosing (obj s 0) \<and> isClosing (obj s' 0) \<and> timerId (obj s' 0) = Some 1 \<and>
       (1, 100, CloseTask 0) \<in> set (timeouts s'))"
  by (simp add: eval_defs)

subsection \<open>C10: the global key and click listeners act on the top notification only\<close>

text \<open>
  C10. The \<^verbatim>\<open>keydown\<close> listener either does nothing or, for the key \<^verbatim>\<open>Escape\<close>, calls
  \<^verbatim>\<open>close()\<close> on the last entry of the mapping, and only if that entry's own options have
  \<^verbatim>\<open>allowEscapeKey\<close>; the \<^verbatim>\<open>click\<close> listener likewise for a backdrop target and
  \<^verbatim>\<open>allowOutsideClick\<close>. When the top entry forbids the interaction the state is unchanged,
  whatever the other instances allow. In every case every object other than the top one is
  left as it was, and every entry of the mapping under another identifier stays in it.
\<close>

theorem global_handlers_act_on_top_only:
  "(on_keydown key s = (None, s) \<or>
      (\<exists>t. key = ''Escape'' \<and> getTopNotification s = Some t \<and>
           allowEscapeKey (options (obj s t)) \<and> on_keydown key s = close t s)) \<and>
   (on_click cl s = (None, s) \<or>
      (\<exists>t. ''notification-backdrop'' \<in> set cl \<and> getTopNotification s = Some t \<and>
           allowOutsideClick (options (obj s t)) \<and> on_click cl s = close t s)) \<and>
   (\<forall>t. getTopNotification s = Some t \<and> \<not> allowEscapeKey (options (obj s t)) \<longrightarrow>
        on_keydown key s = (None, s)) \<and>
   (\<forall>t. getTopNotification s = Some t \<and> \<not> allowOutsideClick (options (obj s t)) \<longrightarrow>
        on_click cl s = (None, s)) \<and>
   (\<forall>r'. getTopNotification s \<noteq> Some r' \<longrightarrow>
        obj (snd (on_keydown key s)) r' = obj s r' \<and> obj (snd (on_click cl s)) r' = obj s r') \<and>
   (\<forall>t k r'. getTopNotification s = Some t \<and> (k, r') \<in> set (notifications s) \<and>
        k \<noteq> nid (obj s t) \<longrightarrow>
        (k, r') \<in> set (notifications (snd (on_keydown key s))) \<and>
        (k, r') \<in> set (notifications (snd (on_click cl s))))"
proof (intro conjI allI impI)
  show "on_keydown key s = (None, s) \<or>
      (\<exists>t. key = ''Escape'' \<and> getTopNotification s = Some t \<and>
           allowEscapeKey (options (obj s t)) \<and> on_keydown key s = close t s)"
    by (auto simp: on_keydown_def split: option.splits)
  show "on_click cl s = (None, s) \<or>
      (\<exists>t. ''notification-backdrop'' \<in> set cl \<and> getTopNotification s = Some t \<and>
           allowOutsideClick (options (obj s t)) \<and> on_click cl s = close t s)"
    by (auto simp: on_click_def split: option.splits)
next
  fix t assume "getTopNotification s = Some t \<and> \<not> allowEscapeKey (options (obj s t))"
  then show "on_keydown key s = (None, s)" by (simp add: on_keydown_def)
next
  fix t assume "getTopNotification s = Some t \<and> \<not> allowOutsideClick (options (obj s t))"
  then show "on_click cl s = (None, s)" by (simp add: on_click_def)
next
  fix r' assume "getTopNotification s \<noteq> Some r'"
  then show "obj (snd (on_keydown key s)) r' = obj s r'"
    by (auto simp: on_keydown_def obj_def split: option.splits)
next
  fix r' assume "getTopNotification s \<noteq> Some r'"
  then show "obj (snd (on_click cl s)) r' = obj s r'"
    by (auto simp: on_click_def obj_def split: option.splits)
next
  fix t k r'
  assume a: "getTopNotification s = Some t \<and> (k, r') \<in> set (notifications s) \<and> k \<noteq> nid (obj s t)"
  then show "(k, r') \<in> set (notifications (snd (on_keydown key s)))"
    by (auto simp: on_keydown_def intro: close_keeps_entry)
next
  fix t k r'
  assume a: "getTopNotification s = Some t \<and> (k, r') \<in> set (notifications s) \<and> k \<noteq> nid (obj s t)"
  then show "(k, r') \<in> set (notifications (snd (on_click cl s)))"
    by (auto simp: on_click_def intro: close_keeps_entry)
qed

text \<open>The theorem at two notifications of which the first allows both interactions and the
  second, the top one, forbids them: both listeners leave the state as it is.\<close>

theorem global_handlers_act_on_top_only_witness:
  "(let s = run [Fire defaultOptions,
                 Fire (defaultOptions\<lparr>allowEscapeKey := False, allowOutsideClick := False\<rparr>)] (init ids)
    in getTopNotification s = Some 1 \<and>
       allowEscapeKey (options (obj s 0)) \<and> \<not> allowEscapeKey (options (obj s 1)) \<and>
       allowOutsideClick (options (obj s 0)) \<and> \<not> allowOutsideClick (options (obj s 1)) \<and>
       on_keydown ''Escape'' s = (None, s) \<and>
       on_click [''notification-backdrop''] s = (None, s) \<and>
       obj (snd (on_keydown ''Escape'' s)) 0 = obj s 0 \<and>
       (ids 0, 0) \<in> set (notifications (snd (on_keydown ''Escape'' s))))"
proof -
  let ?s = "run [Fire defaultOptions,
                 Fire (defaultOptions\<lparr>allowEscapeKey := False, allowOutsideClick := False\<rparr>)] (init ids)"
  have h: "getTopNotification ?s = Some 1 \<and>
       allowEscapeKey (options (obj ?s 0)) \<and> \<not> allowEscapeKey (options (obj ?s 1)) \<and>
       allowOutsideClick (options (obj ?s 0)) \<and> \<not> allowOutsideClick (options (obj ?s 1)) \<and>
       (ids 0, 0) \<in> set (notifications ?s) \<and> ids 0 \<noteq> nid (obj ?s 1)"
    by (simp add: eval_defs)
  from global_handlers_act_on_top_only [of "''Escape''" ?s "[''notification-backdrop'']"] h
  have "on_keydown ''Escape'' ?s = (None, ?s) \<and>
       on_click [''notification-backdrop''] ?s = (None, ?s) \<and>
       obj (snd (on_keydown ''Escape'' ?s)) 0 = obj ?s 0 \<and>
       (ids 0, 0) \<in> set (notifications (snd (on_keydown ''Escape'' ?s)))"
    by (metis One_nat_def option.inject zero_neq_one)
  with h show ?thesis by (simp add: Let_def)
qed

subsection \<open>C1: when and how often the completion signal settles\<close>

text \<open>
  C1 at an explicit \<^verbatim>\<open>close()\<close>, the path that timer expiry, escape key, outside click,
  close button, \<^verbatim>\<open>closeAll()\<close> and eviction all take. \<^verbatim>\<open>close()\<close> contains no call of
  \<^verbatim>\<open>this.resolve\<close>: after it the instance is closing and its completion signal is pending,
  and after the destroy timeout the instance has left the mapping, no timeout is pending,
  and the completion signal is pending still. It does not settle on this exit path, where
  C1 says it settles exactly once.
\<close>

theorem close_leaves_completion_signal_pending:
  "(let s = run [Fire defaultOptions, Close 0] (init ids);
        s' = run [Fire defaultOptions, Close 0, Timeout 1] (init ids)
    in isClosing (obj s 0) \<and> promise (obj s 0) = Pending \<and>
       notifications s' = [] \<and> timeouts s' = [] \<and> promise (obj s' 0) = Pending)"
  by (simp add: eval_defs)

text \<open>
  What holds of the completion signal on every path: in every reachable state and for every
  allocated instance, a promise that is settled keeps its state through every further
  event, so it settles at most once; an event outside the confirm and deny paths leaves
  every promise as it was; and a confirm or deny without handler on a pending instance
  fulfils the promise with its outcome and, in the same turn, drives an open instance into
  closing.
\<close>

theorem completion_signal_settles_once_by_confirm_or_deny:
  "(let s = run evs (init rnd); s' = snd (step ev s)
    in r < nextRef s \<longrightarrow>
       (promise (obj s r) \<noteq> Pending \<longrightarrow> promise (obj s' r) = promise (obj s r)) \<and>
       (\<not> settles ev \<longrightarrow> promise (obj s' r) = promise (obj s r)) \<and>
       (ev = Confirm r \<and> preConfirm (options (obj s r)) = None \<and> promise (obj s r) = Pending \<longrightarrow>
          promise (obj s' r) = Fulfilled \<lparr>isConfirmed = Some True, isDenied = None, value = None\<rparr> \<and>
          (isOpen (obj s r) \<longrightarrow> isClosing (obj s' r))) \<and>
       (ev = Deny r \<and> preDeny (options (obj s r)) = None \<and> promise (obj s r) = Pending \<longrightarrow>
          promise (obj s' r) = Fulfilled \<lparr>isConfirmed = None, isDenied = Some True, value = None\<rparr> \<and>
          (isOpen (obj s r) \<longrightarrow> isClosing (obj s' r))))"
proof -
  define s where "s = run evs (init rnd)"
  define s' where "s' = snd (step ev s)"
  have m: "microtasks s = []" by (simp add: s_def)
  have "(promise (obj s r) \<noteq> Pending \<longrightarrow> promise (obj s' r) = promise (obj s r)) \<and>
       (\<not> settles ev \<longrightarrow> promise (obj s' r) = promise (obj s r)) \<and>
       (ev = Confirm r \<and> preConfirm (options (obj s r)) = None \<and> promise (obj s r) = Pending \<longrightarrow>
          promise (obj s' r) = Fulfilled \<lparr>isConfirmed = Some True, isDenied = None, value = None\<rparr> \<and>
          (isOpen (obj s r) \<longrightarrow> isClosing (obj s' r))) \<and>
       (ev = Deny r \<and> preDeny (options (obj s r)) = None \<and> promise (obj s r) = Pending \<longrightarrow>
          promise (obj s' r) = Fulfilled \<lparr>isConfirmed = None, isDenied = Some True, value = None\<rparr> \<and>
          (isOpen (obj s r) \<longrightarrow> isClosing (obj s' r)))"
    if r: "r < nextRef s"
  proof (intro conjI impI)
    assume "promise (obj s r) \<noteq> Pending"
    then show "promise (obj s' r) = promise (obj s r)"
      using steady_step [of s ev] r by (simp add: steady_def s'_def obj_def)
  next
    assume "\<not> settles ev"
    then show "promise (obj s' r) = promise (obj s r)"
      using silent_step [of ev s] m r by (simp add: silent_def s'_def obj_def)
  next
    assume a: "ev = Confirm r \<and> preConfirm (options (obj s r)) = None \<and> promise (obj s r) = Pending"
    then have "s' = drain (snd (close r (resolve r \<lparr>isConfirmed = Some True, isDenied = None, value = None\<rparr> s)))"
      using r by (simp add: s'_def step_snd dispatch_def confirm_plain)
    from resolve_then_close [OF r _ this] a
    show "promise (obj s' r) = Fulfilled \<lparr>isConfirmed = Some True, isDenied = None, value = None\<rparr>"
      and "isOpen (obj s r) \<Longrightarrow> isClosing (obj s' r)"
      by (simp_all add: obj_def)
  next
    assume a: "ev = Deny r \<and> preDeny (options (obj s r)) = None \<and> promise (obj s r) = Pending"
    then have "s' = drain (snd (close r (resolve r \<lparr>isConfirmed = None, isDenied = Some True, value = None\<rparr> s)))"
      using r by (simp add: s'_def step_snd dispatch_def deny_plain)
    from resolve_then_close [OF r _ this] a
    show "promise (obj s' r) = Fulfilled \<lparr>isConfirmed = None, isDenied = Some True, value = None\<rparr>"
      and "isOpen (obj s r) \<Longrightarrow> isClosing (obj s' r)"
      by (simp_all add: obj_def)
  qed
  then show ?thesis by (simp add: Let_def s_def s'_def)
qed

text \<open>That theorem at one notification: confirming it fulfils the promise and makes it
  closing; a later \<^verbatim>\<open>close()\<close> leaves the settled promise alone.\<close>

theorem completion_signal_settles_once_by_confirm_or_deny_witness:
  "(let s = run [Fire defaultOptions] (init ids);
        s' = snd (step (Confirm 0) s);
        s'' = snd (step (Close 0) s')
    in 0 < nextRef s \<and> preConfirm (options (obj s 0)) = None \<and> promise (obj s 0) = Pending \<and>
       isOpen (obj s 0) \<and>
       promise (obj s' 0) = Fulfilled \<lparr>isConfirmed = Some True, isDenied = None, value = None\<rparr> \<and>
       isClosing (obj s' 0) \<and> promise (obj s'' 0) = promise (obj s' 0))"
proof -
  let ?s = "run [Fire defaultOptions] (init ids)"
  let ?s' = "snd (step (Confirm 0) ?s)"
  have h: "0 < nextRef ?s \<and> preConfirm (options (obj ?s 0)) = None \<and>
      promise (obj ?s 0) = Pending \<and> isOpen (obj ?s 0)"
    by (simp add: eval_defs)
  have s': "?s' = run [Fire defaultOptions, Confirm 0] (init ids)" by simp
  have h': "0 < nextRef ?s'"
    using steady_step [of ?s "Confirm 0"] h by (simp add: steady_def)
  from completion_signal_settles_once_by_confirm_or_deny
    [where evs = "[Fire defaultOptions]" and rnd = ids and ev = "Confirm 0" and r = 0] h
  have a: "promise (obj ?s' 0) = Fulfilled \<lparr>isConfirmed = Some True, isDenied = None, value = None\<rparr> \<and>
      isClosing (obj ?s' 0)"
    by (simp add: Let_def)
  from completion_signal_settles_once_by_confirm_or_deny
    [where evs = "[Fire defaultOptions, Confirm 0]" and rnd = ids and ev = "Close 0" and r = 0] h'
  have "promise (obj (snd (step (Close 0) ?s')) 0) = promise (obj ?s' 0)"
    by (simp add: Let_def)
  with h a show ?thesis by (simp add: Let_def)
qed

subsection \<open>C6: the outcome record\<close>

text \<open>
  C6 at \<^verbatim>\<open>fire({timer: 100})\<close> with no user action. The timer callback calls \<^verbatim>\<open>close()\<close>
  and nothing else: at timer expiry the instance is closing and its completion signal is
  pending, not resolved with both flags false, and it is still pending after the instance
  has been destroyed. Passive dismissal delivers no outcome record, where C6 says it
  delivers one with both flags false.
\<close>

theorem timer_expiry_delivers_no_outcome:
  "(let s = run [Fire (defaultOptions\<lparr>timer := Some 100\<rparr>), Timeout 1] (init ids);
        s' = run [Fire (defaultOptions\<lparr>timer := Some 100\<rparr>), Timeout 1, Timeout 2] (init ids)
    in isClosing (obj s 0) \<and> promise (obj s 0) = Pending \<and>
       promise (obj s 0) \<noteq> Fulfilled \<lparr>isConfirmed = Some False, isDenied = Some False, value = None\<rparr> \<and>
       notifications s' = [] \<and> timeouts s' = [] \<and> promise (obj s' 0) = Pending)"
  by (simp add: eval_defs)

text \<open>
  What holds of the outcome record: in every reachable state the outcome of a fulfilled
  completion signal has exactly one of its flags set, \<^verbatim>\<open>isConfirmed: true\<close> with no
  \<^verbatim>\<open>isDenied\<close> key (a confirm) or \<^verbatim>\<open>isDenied: true\<close> with no \<^verbatim>\<open>isConfirmed\<close> key (a deny);
  and after any sequence of events without a confirm or deny action every completion signal
  is still pending.
\<close>

theorem outcome_flags_and_passive_dismissal:
  "(let s = run evs (init rnd)
    in r < nextRef s \<longrightarrow>
       (\<forall>out. promise (obj s r) = Fulfilled out \<longrightarrow> exactly_one_flag out) \<and>
       ((\<forall>ev\<in>set evs. \<not> settles ev) \<longrightarrow> promise (obj s r) = Pending))"
proof -
  have a: "\<forall>out. promise (obj (run evs (init rnd)) r) = Fulfilled out \<longrightarrow> exactly_one_flag out"
    if "r < nextRef (run evs (init rnd))"
    using shaped_reachable [of evs rnd] that by (simp add: shaped_def obj_def)
  have b: "promise (obj (run evs (init rnd)) r) = Pending"
    if "r < nextRef (run evs (init rnd))" "\<forall>ev\<in>set evs. \<not> settles ev"
    using passive_run [of evs "init rnd"] that by (simp add: obj_def init_def)
  from a b show ?thesis by (simp add: Let_def)
qed

text \<open>That theorem at a confirmed and a denied notification, and at a notification fired
  with \<^verbatim>\<open>{timer: 100}\<close> whose timer has expired.\<close>

theorem outcome_flags_and_passive_dismissal_witness:
  "(let s = run [Fire defaultOptions, Fire defaultOptions, Confirm 0, Deny 1] (init ids);
        t = run [Fire (defaultOptions\<lparr>timer := Some 100\<rparr>), Timeout 1] (init ids)
    in promise (obj s 0) = Fulfilled \<lparr>isConfirmed = Some True, isDenied = None, value = None\<rparr> \<and>
       promise (obj s 1) = Fulfilled \<lparr>isConfirmed = None, isDenied = Some True, value = None\<rparr> \<and>
       exactly_one_flag \<lparr>isConfirmed = Some True, isDenied = None, value = None\<rparr> \<and>
       exactly_one_flag \<lparr>isConfirmed = None, isDenied = Some True, value = None\<rparr> \<and>
       0 < nextRef t \<and> isClosing (obj t 0) \<and> promise (obj t 0) = Pending)"
proof -
  let ?s = "run [Fire defaultOptions, Fire defaultOptions, Confirm 0, Deny 1] (init ids)"
  let ?t = "run [Fire (defaultOptions\<lparr>timer := Some 100\<rparr>), Timeout 1] (init ids)"
  have h: "0 < nextRef ?s \<and> 1 < nextRef ?s \<and>
      promise (obj ?s 0) = Fulfilled \<lparr>isConfirmed = Some True, isDenied = None, value = None\<rparr> \<and>
      promise (obj ?s 1) = Fulfilled \<lparr>isConfirmed = None, isDenied = Some True, value = None\<rparr>"
    by (simp add: eval_defs)
  have g: "0 < nextRef ?t \<and> isClosing (obj ?t 0)"
    by (simp add: eval_defs)
  have p: "\<forall>ev\<in>set [Fire (defaultOptions\<lparr>timer := Some 100\<rparr>), Timeout 1]. \<not> settles ev"
    by simp
  from outcome_flags_and_passive_dismissal
    [where evs = "[Fire defaultOptions, Fire defaultOptions, Confirm 0, Deny 1]" and rnd = ids and r = 0] h
  have a: "exactly_one_flag \<lparr>isConfirmed = Some True, isDenied = None, value = None\<rparr>"
    by (simp add: Let_def)
  from outcome_flags_and_passive_dismissal
    [where evs = "[Fire defaultOptions, Fire defaultOptions, Confirm 0, Deny 1]" and rnd = ids and r = 1] h
  have b: "exactly_one_flag \<lparr>isConfirmed = None, isDenied = Some True, value = None\<rparr>"
    by (simp add: Let_def)
  from outcome_flags_and_passive_dismissal
    [where evs = "[Fire (defaultOptions\<lparr>timer := Some 100\<rparr>), Timeout 1]" and rnd = ids and r = 0] g p
  have c: "promise (obj ?t 0) = Pending"
    by (simp add: Let_def)
  from h g a b c show ?thesis by (simp add: Let_def)
qed

subsection \<open>C7: a confirm handler that returns a promise\<close>

text \<open>
  C7. Let \<^verbatim>\<open>preConfirm\<close> of an instance return a promise. Then \<^verbatim>\<open>confirm()\<close> returns
  normally and leaves the instance exactly as it was, its completion signal included; it
  only registers the reactions of the handler promise. If that promise is rejected with
  \<open>e\<close> while the completion signal is pending, the completion signal is rejected with \<open>e\<close>
  and the instance is not closed: its flags, its timer, the mapping and the pending
  timeouts are unchanged. If it is fulfilled with \<open>v\<close>, the completion signal is fulfilled
  with \<^verbatim>\<open>{isConfirmed: true, value: v}\<close> and an open instance is driven into closing.
\<close>

theorem deferred_confirm_handler:
  "r < nextRef s \<and> microtasks s = [] \<and> preConfirm (options (obj s r)) = Some HPromise \<longrightarrow>
     (let s1 = snd (step (Confirm r) s);
          k = length (deferreds s);
          s2 = snd (step (Settle k (Inl e)) s1);
          s3 = snd (step (Settle k (Inr v)) s1)
      in fst (step (Confirm r) s) = None \<and> obj s1 r = obj s r \<and>
         notifications s1 = notifications s \<and> timeouts s1 = timeouts s \<and>
         deferreds s1 = deferreds s @ [(r, ConfirmAction)] \<and>
         (promise (obj s r) = Pending \<longrightarrow>
            promise (obj s2 r) = Rejected e \<and>
            isOpen (obj s2 r) = isOpen (obj s r) \<and> isClosing (obj s2 r) = isClosing (obj s r) \<and>
            timerId (obj s2 r) = timerId (obj s r) \<and>
            notifications s2 = notifications s \<and> timeouts s2 = timeouts s \<and>
            promise (obj s3 r) =
              Fulfilled \<lparr>isConfirmed = Some True, isDenied = None, value = Some v\<rparr> \<and>
            (isOpen (obj s r) \<longrightarrow> isClosing (obj s3 r))))"
proof (intro impI)
  assume a: "r < nextRef s \<and> microtasks s = [] \<and> preConfirm (options (obj s r)) = Some HPromise"
  define s1 where "s1 = s\<lparr>calls := calls s @ [PreConfirm r],
    deferreds := deferreds s @ [(r, ConfirmAction)]\<rparr>"
  define s1' where "s1' = s1\<lparr>deferreds := deferreds s\<rparr>"
  have d: "dispatch (Confirm r) s = (None, s1)"
    using a by (simp add: dispatch_def confirm_def s1_def)
  have st: "step (Confirm r) s = (None, s1)"
    using a d by (simp add: step_def drain_Nil s1_def)
  have k: "length (deferreds s) < length (deferreds s1)" "deferreds s1 ! length (deferreds s) = (r, ConfirmAction)"
    "take (length (deferreds s)) (deferreds s1) @ drop (Suc (length (deferreds s))) (deferreds s1) = deferreds s"
    by (simp_all add: s1_def)
  have os: "on_settle (length (deferreds s)) res s1 = settled r ConfirmAction res s1'" for res
    using k by (simp add: on_settle_def s1'_def)
  have m1: "microtasks s1' = []" and h1: "heap s1' = heap s" and n1: "nextRef s1' = nextRef s"
    using a by (simp_all add: s1'_def s1_def)
  have rej: "snd (step (Settle (length (deferreds s)) (Inl e)) s1) = reject r e s1'"
    using m1 by (simp add: step_snd dispatch_def os settled_def drain_Nil)
  have ful: "snd (step (Settle (length (deferreds s)) (Inr v)) s1) = drain (settled r ConfirmAction (Inr v) s1')"
    by (simp add: step_snd dispatch_def os)
  have A: "obj s1 r = obj s r \<and> notifications s1 = notifications s \<and> timeouts s1 = timeouts s \<and>
      deferreds s1 = deferreds s @ [(r, ConfirmAction)]"
    by (simp add: s1_def obj_def)
  have B: "promise (obj (reject r e s1') r) = Rejected e \<and>
      isOpen (obj (reject r e s1') r) = isOpen (obj s r) \<and>
      isClosing (obj (reject r e s1') r) = isClosing (obj s r) \<and>
      timerId (obj (reject r e s1') r) = timerId (obj s r) \<and>
      notifications (reject r e s1') = notifications s \<and> timeouts (reject r e s1') = timeouts s"
    if "promise (obj s r) = Pending"
    using that h1 by (simp add: obj_def reject_promise s1'_def s1_def)
  have C: "promise (obj (drain (settled r ConfirmAction (Inr v) s1')) r) =
        Fulfilled \<lparr>isConfirmed = Some True, isDenied = None, value = Some v\<rparr> \<and>
      (isOpen (obj s r) \<longrightarrow> isClosing (obj (drain (settled r ConfirmAction (Inr v) s1')) r))"
    if "promise (obj s r) = Pending"
    using settled_fulfil [of r s1' ConfirmAction v] that a h1 n1
    by (simp add: obj_def action_outcome_def)
  show "let s1 = snd (step (Confirm r) s);
          k = length (deferreds s);
          s2 = snd (step (Settle k (Inl e)) s1);
          s3 = snd (step (Settle k (Inr v)) s1)
      in fst (step (Confirm r) s) = None \<and> obj s1 r = obj s r \<and>
         notifications s1 = notifications s \<and> timeouts s1 = timeouts s \<and>
         deferreds s1 = deferreds s @ [(r, ConfirmAction)] \<and>
         (promise (obj s r) = Pending \<longrightarrow>
            promise (obj s2 r) = Rejected e \<and>
            isOpen (obj s2 r) = isOpen (obj s r) \<and> isClosing (obj s2 r) = isClosing (obj s r) \<and>
            timerId (obj s2 r) = timerId (obj s r) \<and>
            notifications s2 = notifications s \<and> timeouts s2 = timeouts s \<and>
            promise (obj s3 r) =
              Fulfilled \<lparr>isConfirmed = Some True, isDenied = None, value = Some v\<rparr> \<and>
            (isOpen (obj s r) \<longrightarrow> isClosing (obj s3 r)))"
    unfolding Let_def st snd_conv fst_conv rej ful using A B C by blast
qed

text \<open>The theorem at one notification whose \<^verbatim>\<open>preConfirm\<close> returns a promise.\<close>

theorem deferred_confirm_handler_witness:
  "(let s = run [Fire (defaultOptions\<lparr>preConfirm := Some HPromise\<rparr>)] (init ids);
        s1 = snd (step (Confirm 0) s);
        s2 = snd (step (Settle 0 (Inl (Thrown 7))) s1);
        s3 = snd (step (Settle 0 (Inr 3)) s1)
    in 0 < nextRef s \<and> microtasks s = [] \<and> deferreds s = [] \<and>
       preConfirm (options (obj s 0)) = Some HPromise \<and>
       promise (obj s 0) = Pending \<and> isOpen (obj s 0) \<and> \<not> isClosing (obj s 0) \<and>
       promise (obj s1 0) = Pending \<and> \<not> isClosing (obj s1 0) \<and>
       promise (obj s2 0) = Rejected (Thrown 7) \<and> \<not> isClosing (obj s2 0) \<and>
       notifications s2 = notifications s \<and>
       promise (obj s3 0) = Fulfilled \<lparr>isConfirmed = Some True, isDenied = None, value = Some 3\<rparr> \<and>
       isClosing (obj s3 0))"
proof -
  let ?s = "run [Fire (defaultOptions\<lparr>preConfirm := Some HPromise\<rparr>)] (init ids)"
  have h: "0 < nextRef ?s \<and> microtasks ?s = [] \<and> deferreds ?s = [] \<and>
       preConfirm (options (obj ?s 0)) = Some HPromise \<and>
       promise (obj ?s 0) = Pending \<and> isOpen (obj ?s 0) \<and> \<not> isClosing (obj ?s 0)"
    by (simp add: eval_defs)
  from deferred_confirm_handler [of 0 ?s "Thrown 7" 3] h
  show ?thesis by (simp add: Let_def)
qed

subsection \<open>C8: lifecycle hooks\<close>

text \<open>
  C8, as the code has it. The five hooks \<^verbatim>\<open>willOpen\<close>, \<^verbatim>\<open>didOpen\<close>, \<^verbatim>\<open>willClose\<close>, \<^verbatim>\<open>didClose\<close>
  and \<^verbatim>\<open>didDestroy\<close> are called in line, with no \<^verbatim>\<open>try\<close>/\<^verbatim>\<open>catch\<close>; a hook that is set is
  called within its transition, once, in this order, and a hook that throws ends the
  transition where it stands, the exception going to the caller.

  \<^item> \<^verbatim>\<open>open()\<close> on an instance that is not open calls \<^verbatim>\<open>willOpen\<close>, sets \<^verbatim>\<open>isOpen\<close>, arms the timer
    and calls \<^verbatim>\<open>didOpen\<close>. A \<^verbatim>\<open>willOpen\<close> that throws leaves the instance not open, without timer,
    \<^verbatim>\<open>didOpen\<close> not called, and makes \<^verbatim>\<open>fire\<close> throw with the instance not in the mapping. A
    \<^verbatim>\<open>didOpen\<close> that throws makes \<^verbatim>\<open>open()\<close> and \<^verbatim>\<open>fire\<close> throw with the instance open, its timer
    armed, and not in the mapping. With \<^verbatim>\<open>didRender\<close>, \<^verbatim>\<open>willOpen\<close> and \<^verbatim>\<open>didOpen\<close> not throwing
    the constructor returns the instance, open, having called the hooks that are set in
    this order.
  \<^item> \<^verbatim>\<open>close()\<close> on an open instance that is not closing sets \<^verbatim>\<open>isClosing\<close> and calls
    \<^verbatim>\<open>willClose\<close>. A \<^verbatim>\<open>willClose\<close> that throws makes \<^verbatim>\<open>close()\<close> throw right there: the timer is
    not cleared and no destroy is scheduled. A \<^verbatim>\<open>willClose\<close> that does not throw is followed by
    the clearing of the timer and, with animation, by the scheduling of the destroy, \<^verbatim>\<open>close()\<close>
    returning normally; without animation \<^verbatim>\<open>close()\<close> is \<^verbatim>\<open>destroy()\<close> from there on, with its
    result.
  \<^item> \<^verbatim>\<open>destroy()\<close> calls \<^verbatim>\<open>didClose\<close>, detaches the element, deletes the instance from the
    mapping and calls \<^verbatim>\<open>didDestroy\<close>. A \<^verbatim>\<open>didClose\<close> that throws makes \<^verbatim>\<open>destroy()\<close> throw with
    the instance attached and in the mapping, \<^verbatim>\<open>didDestroy\<close> not called. A \<^verbatim>\<open>didDestroy\<close> that
    throws makes \<^verbatim>\<open>destroy()\<close> throw after the instance has left the mapping.
  \<^item> Whatever the hooks do, \<^verbatim>\<open>open\<close>, \<^verbatim>\<open>close\<close>, \<^verbatim>\<open>destroy\<close> and \<^verbatim>\<open>fire\<close> leave every existing
    completion signal as it was.
\<close>

theorem hooks_run_synchronously_and_a_throw_aborts:
  "(\<not> throws (didRender opts) \<and> willOpen opts = Throws e1 \<longrightarrow>
      fst (fire opts s) = Inl (Thrown e1) \<and>
      notifications (snd (fire opts s)) = notifications s \<and>
      \<not> isOpen (obj (snd (fire opts s)) (nextRef s)) \<and>
      timeouts (snd (fire opts s)) = timeouts s) \<and>
   (isOpen (obj s r) \<and> \<not> isClosing (obj s r) \<and> willClose (options (obj s r)) = Throws e2 \<longrightarrow>
      close r s =
        (Some (Thrown e2),
         (upd r (\<lambda>n. n\<lparr>isClosing := True\<rparr>) s)\<lparr>calls := calls s @ [WillClose r]\<rparr>)) \<and>
   (didClose (options (obj s r)) = Throws e3 \<longrightarrow>
      destroy r s = (Some (Thrown e3), s\<lparr>calls := calls s @ [DidClose r]\<rparr>)) \<and>
   (isOpen (obj s r) \<and> \<not> isClosing (obj s r) \<and> willClose (options (obj s r)) = Returns \<and>
    animation (options (obj s r)) \<longrightarrow>
      fst (close r s) = None \<and> calls (snd (close r s)) = calls s @ [WillClose r] \<and>
      isClosing (obj (snd (close r s)) r) \<and>
      timeouts (snd (close r s)) =
        filter (\<lambda>(h, _). Some h \<noteq> timerId (obj s r)) (timeouts s) @
        [(nextTimeout s, animationDuration (options (obj s r)), DestroyTask r)]) \<and>
   promise (obj (snd (close r s)) r') = promise (obj s r') \<and>
   promise (obj (snd (destroy r s)) r') = promise (obj s r') \<and>
   (r' \<noteq> nextRef s \<longrightarrow> promise (obj (snd (fire opts s)) r') = promise (obj s r')) \<and>
   (\<not> throws (didRender opts) \<and> \<not> throws (willOpen opts) \<and> didOpen opts = Throws e4 \<longrightarrow>
      fst (fire opts s) = Inl (Thrown e4) \<and>
      notifications (snd (fire opts s)) = notifications s \<and>
      isOpen (obj (snd (fire opts s)) (nextRef s)) \<and>
      timeouts (snd (fire opts s)) =
        timeouts s @
        (if truthy (timer opts) then [(nextTimeout s, the (timer opts), CloseTask (nextRef s))]
         else [])) \<and>
   (\<not> throws (didRender opts) \<and> \<not> throws (willOpen opts) \<and> \<not> throws (didOpen opts) \<longrightarrow>
      fst (new_Notification opts s) = Inr (nextRef s) \<and>
      isOpen (obj (snd (new_Notification opts s)) (nextRef s)) \<and>
      calls (snd (new_Notification opts s)) =
        calls s @ logged (didRender opts) (DidRender (nextRef s)) @
        logged (willOpen opts) (WillOpen (nextRef s)) @
        logged (didOpen opts) (DidOpen (nextRef s))) \<and>
   (\<not> isOpen (obj s r) \<longrightarrow>
      fst (n_open r s) =
        (case willOpen (options (obj s r)) of
           Throws e \<Rightarrow> Some (Thrown e)
         | _ \<Rightarrow> (case didOpen (options (obj s r)) of
                  Throws e \<Rightarrow> Some (Thrown e)
                | _ \<Rightarrow> None)) \<and>
      calls (snd (n_open r s)) =
        calls s @ logged (willOpen (options (obj s r))) (WillOpen r) @
        (if throws (willOpen (options (obj s r))) then []
         else logged (didOpen (options (obj s r))) (DidOpen r)) \<and>
      isOpen (obj (snd (n_open r s)) r) = (\<not> throws (willOpen (options (obj s r)))) \<and>
      timeouts (snd (n_open r s)) =
        timeouts s @
        (if \<not> throws (willOpen (options (obj s r))) \<and> truthy (timer (options (obj s r)))
         then [(nextTimeout s, the (timer (options (obj s r))), CloseTask r)] else [])) \<and>
   fst (destroy r s) =
     (case didClose (options (obj s r)) of
        Throws e \<Rightarrow> Some (Thrown e)
      | _ \<Rightarrow> (case didDestroy (options (obj s r)) of
               Throws e \<Rightarrow> Some (Thrown e)
             | _ \<Rightarrow> None)) \<and>
   calls (snd (destroy r s)) =
     calls s @ logged (didClose (options (obj s r))) (DidClose r) @
     (if throws (didClose (options (obj s r))) then []
      else logged (didDestroy (options (obj s r))) (DidDestroy r)) \<and>
   notifications (snd (destroy r s)) =
     (if throws (didClose (options (obj s r))) then notifications s
      else map_delete (nid (obj s r)) (notifications s)) \<and>
   attached (obj (snd (destroy r s)) r) =
     (throws (didClose (options (obj s r))) \<and> attached (obj s r)) \<and>
   (isOpen (obj s r) \<and> \<not> isClosing (obj s r) \<and> \<not> throws (willClose (options (obj s r))) \<and>
    animation (options (obj s r)) \<longrightarrow>
      fst (close r s) = None \<and>
      calls (snd (close r s)) =
        calls s @ logged (willClose (options (obj s r))) (WillClose r) \<and>
      isClosing (obj (snd (close r s)) r) \<and> timerId (obj (snd (close r s)) r) = None \<and>
      notifications (snd (close r s)) = notifications s \<and>
      timeouts (snd (close r s)) =
        filter (\<lambda>(h, _). Some h \<noteq> timerId (obj s r)) (timeouts s) @
        [(nextTimeout s, animationDuration (options (obj s r)), DestroyTask r)]) \<and>
   (isOpen (obj s r) \<and> \<not> isClosing (obj s r) \<and> \<not> throws (willClose (options (obj s r))) \<and>
    \<not> animation (options (obj s r)) \<longrightarrow>
      close r s =
        destroy r (clearTimer r ((upd r (\<lambda>n. n\<lparr>isClosing := True\<rparr>) s)
          \<lparr>calls := calls s @ logged (willClose (options (obj s r))) (WillClose r)\<rparr>))) \<and>
   promise (obj (snd (n_open r s)) r') = promise (obj s r')"
proof -
  have c1: "\<not> throws (didRender opts) \<and> willOpen opts = Throws e1 \<longrightarrow>
      fst (fire opts s) = Inl (Thrown e1) \<and>
      notifications (snd (fire opts s)) = notifications s \<and>
      \<not> isOpen (obj (snd (fire opts s)) (nextRef s)) \<and>
      timeouts (snd (fire opts s)) = timeouts s"
    by (simp add: fire_willOpen_throws)
  have c2: "isOpen (obj s r) \<and> \<not> isClosing (obj s r) \<and> willClose (options (obj s r)) = Throws e2 \<longrightarrow>
      close r s =
        (Some (Thrown e2),
         (upd r (\<lambda>n. n\<lparr>isClosing := True\<rparr>) s)\<lparr>calls := calls s @ [WillClose r]\<rparr>)"
    by (simp add: close_willClose_throws)
  have c3: "didClose (options (obj s r)) = Throws e3 \<longrightarrow>
      destroy r s = (Some (Thrown e3), s\<lparr>calls := calls s @ [DidClose r]\<rparr>)"
    by (simp add: destroy_didClose_throws)
  have c4: "isOpen (obj s r) \<and> \<not> isClosing (obj s r) \<and> willClose (options (obj s r)) = Returns \<and>
    animation (options (obj s r)) \<longrightarrow>
      fst (close r s) = None \<and> calls (snd (close r s)) = calls s @ [WillClose r] \<and>
      isClosing (obj (snd (close r s)) r) \<and>
      timeouts (snd (close r s)) =
        filter (\<lambda>(h, _). Some h \<noteq> timerId (obj s r)) (timeouts s) @
        [(nextTimeout s, animationDuration (options (obj s r)), DestroyTask r)]"
    by (simp add: close_willClose_returns)
  have c5: "promise (obj (snd (close r s)) r') = promise (obj s r')"
    and c6: "promise (obj (snd (destroy r s)) r') = promise (obj s r')"
    and c7: "r' \<noteq> nextRef s \<longrightarrow> promise (obj (snd (fire opts s)) r') = promise (obj s r')"
    by (simp_all add: obj_def)
  have c14: "promise (obj (snd (n_open r s)) r') = promise (obj s r')"
    by (rule n_open_promise)
  have c8: "\<not> throws (didRender opts) \<and> \<not> throws (willOpen opts) \<and> didOpen opts = Throws e4 \<longrightarrow>
      fst (fire opts s) = Inl (Thrown e4) \<and>
      notifications (snd (fire opts s)) = notifications s \<and>
      isOpen (obj (snd (fire opts s)) (nextRef s)) \<and>
      timeouts (snd (fire opts s)) =
        timeouts s @
        (if truthy (timer opts) then [(nextTimeout s, the (timer opts), CloseTask (nextRef s))]
         else [])"
    by (simp add: fire_didOpen_throws)
  have c9: "\<not> throws (didRender opts) \<and> \<not> throws (willOpen opts) \<and> \<not> throws (didOpen opts) \<longrightarrow>
      fst (new_Notification opts s) = Inr (nextRef s) \<and>
      isOpen (obj (snd (new_Notification opts s)) (nextRef s)) \<and>
      calls (snd (new_Notification opts s)) =
        calls s @ logged (didRender opts) (DidRender (nextRef s)) @
        logged (willOpen opts) (WillOpen (nextRef s)) @
        logged (didOpen opts) (DidOpen (nextRef s))"
    by (simp add: new_hooks_return)
  have c10: "\<not> isOpen (obj s r) \<longrightarrow>
      fst (n_open r s) =
        (case willOpen (options (obj s r)) of
           Throws e \<Rightarrow> Some (Thrown e)
         | _ \<Rightarrow> (case didOpen (options (obj s r)) of
                  Throws e \<Rightarrow> Some (Thrown e)
                | _ \<Rightarrow> None)) \<and>
      calls (snd (n_open r s)) =
        calls s @ logged (willOpen (options (obj s r))) (WillOpen r) @
        (if throws (willOpen (options (obj s r))) then []
         else logged (didOpen (options (obj s r))) (DidOpen r)) \<and>
      isOpen (obj (snd (n_open r s)) r) = (\<not> throws (willOpen (options (obj s r)))) \<and>
      timeouts (snd (n_open r s)) =
        timeouts s @
        (if \<not> throws (willOpen (options (obj s r))) \<and> truthy (timer (options (obj s r)))
         then [(nextTimeout s, the (timer (options (obj s r))), CloseTask r)] else [])"
    using n_open_hooks [where s = s and r = r] by blast
  have c11: "fst (destroy r s) =
     (case didClose (options (obj s r)) of
        Throws e \<Rightarrow> Some (Thrown e)
      | _ \<Rightarrow> (case didDestroy (options (obj s r)) of
               Throws e \<Rightarrow> Some (Thrown e)
             | _ \<Rightarrow> None))"
    and c11b: "calls (snd (destroy r s)) =
     calls s @ logged (didClose (options (obj s r))) (DidClose r) @
     (if throws (didClose (options (obj s r))) then []
      else logged (didDestroy (options (obj s r))) (DidDestroy r))"
    and c11c: "notifications (snd (destroy r s)) =
     (if throws (didClose (options (obj s r))) then notifications s
      else map_delete (nid (obj s r)) (notifications s))"
    and c11d: "attached (obj (snd (destroy r s)) r) =
     (throws (didClose (options (obj s r))) \<and> attached (obj s r))"
    by (rule destroy_hooks)+
  have c12: "isOpen (obj s r) \<and> \<not> isClosing (obj s r) \<and> \<not> throws (willClose (options (obj s r))) \<and>
    animation (options (obj s r)) \<longrightarrow>
      fst (close r s) = None \<and>
      calls (snd (close r s)) =
        calls s @ logged (willClose (options (obj s r))) (WillClose r) \<and>
      isClosing (obj (snd (close r s)) r) \<and> timerId (obj (snd (close r s)) r) = None \<and>
      notifications (snd (close r s)) = notifications s \<and>
      timeouts (snd (close r s)) =
        filter (\<lambda>(h, _). Some h \<noteq> timerId (obj s r)) (timeouts s) @
        [(nextTimeout s, animationDuration (options (obj s r)), DestroyTask r)]"
    using close_hooks_animated [where s = s and r = r]
      close_isClosing [where s = s and r = r and r' = r] by (simp add: obj_def)
  have c13: "isOpen (obj s r) \<and> \<not> isClosing (obj s r) \<and> \<not> throws (willClose (options (obj s r))) \<and>
    \<not> animation (options (obj s r)) \<longrightarrow>
      close r s =
        destroy r (clearTimer r ((upd r (\<lambda>n. n\<lparr>isClosing := True\<rparr>) s)
          \<lparr>calls := calls s @ logged (willClose (options (obj s r))) (WillClose r)\<rparr>))"
    using close_hooks_unanimated [where s = s and r = r] by blast
  from c1 c2 c3 c4 c5 c6 c7 c8 c9 c10 c11 c11b c11c c11d c12 c13 c14 show ?thesis
    by (intro conjI)
qed

text \<open>The theorem at a throwing \<^verbatim>\<open>willOpen\<close>, a throwing \<^verbatim>\<open>willClose\<close>, an instance whose
  \<^verbatim>\<open>willClose\<close> returns and whose \<^verbatim>\<open>didClose\<close> throws, a throwing \<^verbatim>\<open>didOpen\<close> on a request
  with a timer, a throwing \<^verbatim>\<open>didDestroy\<close> on an instance closed without animation, and at
  \<^verbatim>\<open>willOpen\<close>, \<^verbatim>\<open>didOpen\<close>, \<^verbatim>\<open>didClose\<close> and \<^verbatim>\<open>didDestroy\<close> hooks that return.\<close>

theorem hooks_run_synchronously_and_a_throw_aborts_witness:
  "(let w = defaultOptions\<lparr>willOpen := Throws 2\<rparr>;
        s = run [Fire (defaultOptions\<lparr>willClose := Throws 1\<rparr>)] (init ids);
        t = run [Fire (defaultOptions\<lparr>willClose := Returns, didClose := Throws 3\<rparr>)] (init ids);
        v = defaultOptions\<lparr>timer := Some 5000, didOpen := Throws 4\<rparr>;
        u = run [Fire (defaultOptions\<lparr>animation := False, didDestroy := Throws 5\<rparr>)] (init ids);
        p = defaultOptions\<lparr>didOpen := Returns, willOpen := Returns\<rparr>;
        q = run [Fire (defaultOptions\<lparr>animation := False, didClose := Returns,
                                      didDestroy := Returns\<rparr>)] (init ids)
    in fst (fire w s) = Inl (Thrown 2) \<and> notifications (snd (fire w s)) = notifications s \<and>
       \<not> isOpen (obj (snd (fire w s)) 1) \<and>
       isOpen (obj s 0) \<and> \<not> isClosing (obj s 0) \<and>
       fst (close 0 s) = Some (Thrown 1) \<and> isClosing (obj (snd (close 0 s)) 0) \<and>
       timeouts (snd (close 0 s)) = [] \<and>
       isOpen (obj t 0) \<and> \<not> isClosing (obj t 0) \<and>
       fst (close 0 t) = None \<and> calls (snd (close 0 t)) = [WillClose 0] \<and>
       timeouts (snd (close 0 t)) = [(1, 300, DestroyTask 0)] \<and>
       fst (destroy 0 (snd (close 0 t))) = Some (Thrown 3) \<and>
       notifications (snd (destroy 0 (snd (close 0 t)))) = notifications t \<and>
       promise (obj (snd (close 0 t)) 0) = Pending \<and>
       fst (fire v s) = Inl (Thrown 4) \<and> notifications (snd (fire v s)) = notifications s \<and>
       isOpen (obj (snd (fire v s)) 1) \<and>
       timeouts (snd (fire v s)) = [(1, 5000, CloseTask 1)] \<and>
       isOpen (obj u 0) \<and> \<not> isClosing (obj u 0) \<and> notifications u = [(ids 0, 0)] \<and>
       fst (close 0 u) = Some (Thrown 5) \<and> notifications (snd (close 0 u)) = [] \<and>
       calls (snd (close 0 u)) = [DidDestroy 0] \<and> \<not> attached (obj (snd (close 0 u)) 0) \<and>
       fst (new_Notification p s) = Inr 1 \<and> isOpen (obj (snd (new_Notification p s)) 1) \<and>
       calls (snd (new_Notification p s)) = [WillOpen 1, DidOpen 1] \<and>
       fst (close 0 q) = None \<and> calls (snd (close 0 q)) = [DidClose 0, DidDestroy 0] \<and>
       notifications (snd (close 0 q)) = [])"
proof -
  let ?o = "defaultOptions\<lparr>willOpen := Throws 2\<rparr>"
  let ?s = "run [Fire (defaultOptions\<lparr>willClose := Throws 1\<rparr>)] (init ids)"
  let ?t = "run [Fire (defaultOptions\<lparr>willClose := Returns, didClose := Throws 3\<rparr>)] (init ids)"
  let ?v = "defaultOptions\<lparr>timer := Some 5000, didOpen := Throws 4\<rparr>"
  let ?u = "run [Fire (defaultOptions\<lparr>animation := False, didDestroy := Throws 5\<rparr>)] (init ids)"
  let ?p = "defaultOptions\<lparr>didOpen := Returns, willOpen := Returns\<rparr>"
  let ?q = "run [Fire (defaultOptions\<lparr>animation := False, didClose := Returns,
                                      didDestroy := Returns\<rparr>)] (init ids)"
  let ?u1 = "clearTimer 0 ((upd 0 (\<lambda>n. n\<lparr>isClosing := True\<rparr>) ?u)
      \<lparr>calls := calls ?u @ logged (willClose (options (obj ?u 0))) (WillClose 0)\<rparr>)"
  let ?q1 = "clearTimer 0 ((upd 0 (\<lambda>n. n\<lparr>isClosing := True\<rparr>) ?q)
      \<lparr>calls := calls ?q @ logged (willClose (options (obj ?q 0))) (WillClose 0)\<rparr>)"
  have hs: "\<not> throws (didRender ?o) \<and> willOpen ?o = Throws 2 \<and> nextRef ?s = 1 \<and>
      isOpen (obj ?s 0) \<and> \<not> isClosing (obj ?s 0) \<and> willClose (options (obj ?s 0)) = Throws 1 \<and>
      timeouts ?s = [] \<and> calls ?s = [] \<and> nextTimeout ?s = 1"
    by (simp add: eval_defs throws_def)
  have ht: "isOpen (obj ?t 0) \<and> \<not> isClosing (obj ?t 0) \<and> willClose (options (obj ?t 0)) = Returns \<and>
      animation (options (obj ?t 0)) \<and> didClose (options (obj ?t 0)) = Throws 3 \<and>
      timeouts ?t = [] \<and> calls ?t = [] \<and> nextTimeout ?t = 1 \<and>
      animationDuration (options (obj ?t 0)) = 300 \<and> promise (obj ?t 0) = Pending"
    by (simp add: eval_defs)
  have hv: "\<not> throws (didRender ?v) \<and> \<not> throws (willOpen ?v) \<and> didOpen ?v = Throws 4 \<and>
      truthy (timer ?v) \<and> timer ?v = Some 5000"
    by (simp add: defaultOptions_def throws_def truthy_def)
  have hp: "\<not> throws (didRender ?p) \<and> \<not> throws (willOpen ?p) \<and> \<not> throws (didOpen ?p) \<and>
      logged (didRender ?p) (DidRender 1) = [] \<and> logged (willOpen ?p) (WillOpen 1) = [WillOpen 1] \<and>
      logged (didOpen ?p) (DidOpen 1) = [DidOpen 1]"
    by (simp add: defaultOptions_def throws_def logged_def)
  have hu: "isOpen (obj ?u 0) \<and> \<not> isClosing (obj ?u 0) \<and>
      \<not> throws (willClose (options (obj ?u 0))) \<and> \<not> animation (options (obj ?u 0)) \<and>
      notifications ?u = [(ids 0, 0)] \<and>
      didClose (options (obj ?u1 0)) = Absent \<and> didDestroy (options (obj ?u1 0)) = Throws 5 \<and>
      calls ?u1 = [] \<and> notifications ?u1 = [(ids 0, 0)] \<and> nid (obj ?u1 0) = ids 0 \<and>
      attached (obj ?u1 0)"
    by (simp add: eval_defs throws_def logged_def)
  have hq: "isOpen (obj ?q 0) \<and> \<not> isClosing (obj ?q 0) \<and>
      \<not> throws (willClose (options (obj ?q 0))) \<and> \<not> animation (options (obj ?q 0)) \<and>
      didClose (options (obj ?q1 0)) = Returns \<and> didDestroy (options (obj ?q1 0)) = Returns \<and>
      calls ?q1 = [] \<and> notifications ?q1 = [(ids 0, 0)] \<and> nid (obj ?q1 0) = ids 0"
    by (simp add: eval_defs throws_def logged_def)
  note skip4 = conjunct2 [THEN conjunct2, THEN conjunct2, THEN conjunct2]
  note skip8 = skip4 [THEN skip4]
  note A = hooks_run_synchronously_and_a_throw_aborts
    [where opts = ?o and s = ?s and ?e1.0 = 2,
     THEN conjunct1]
  note A' = hooks_run_synchronously_and_a_throw_aborts
    [where s = ?s and r = 0 and ?e2.0 = 1,
     THEN conjunct2, THEN conjunct1]
  note B = hooks_run_synchronously_and_a_throw_aborts [where s = ?t and r = 0,
     THEN conjunct2, THEN conjunct2, THEN conjunct2, THEN conjunct1]
  note B' = hooks_run_synchronously_and_a_throw_aborts [where s = ?t and r = 0 and r' = 0,
     THEN skip4, THEN conjunct1]
  note C = hooks_run_synchronously_and_a_throw_aborts
    [where s = "snd (close 0 ?t)" and r = 0 and ?e3.0 = 3,
     THEN conjunct2, THEN conjunct2, THEN conjunct1]
  note D = hooks_run_synchronously_and_a_throw_aborts
    [where opts = ?v and s = ?s and ?e4.0 = 4,
     THEN skip4, THEN conjunct2, THEN conjunct2, THEN conjunct2, THEN conjunct1]
  note E = hooks_run_synchronously_and_a_throw_aborts [where s = ?u and r = 0,
     THEN skip8, THEN skip4, THEN conjunct2, THEN conjunct2, THEN conjunct2, THEN conjunct1]
  note F1 = hooks_run_synchronously_and_a_throw_aborts [where s = ?u1 and r = 0,
     THEN skip8, THEN conjunct2, THEN conjunct2, THEN conjunct1]
  note F2 = hooks_run_synchronously_and_a_throw_aborts [where s = ?u1 and r = 0,
     THEN skip8, THEN conjunct2, THEN conjunct2, THEN conjunct2, THEN conjunct1]
  note F3 = hooks_run_synchronously_and_a_throw_aborts [where s = ?u1 and r = 0,
     THEN skip8, THEN skip4, THEN conjunct1]
  note F4 = hooks_run_synchronously_and_a_throw_aborts [where s = ?u1 and r = 0,
     THEN skip8, THEN skip4, THEN conjunct2, THEN conjunct1]
  note G = hooks_run_synchronously_and_a_throw_aborts [where opts = ?p and s = ?s,
     THEN skip8, THEN conjunct1]
  note H = hooks_run_synchronously_and_a_throw_aborts [where s = ?q and r = 0,
     THEN skip8, THEN skip4, THEN conjunct2, THEN conjunct2, THEN conjunct2, THEN conjunct1]
  note I1 = hooks_run_synchronously_and_a_throw_aborts [where s = ?q1 and r = 0,
     THEN skip8, THEN conjunct2, THEN conjunct2, THEN conjunct1]
  note I2 = hooks_run_synchronously_and_a_throw_aborts [where s = ?q1 and r = 0,
     THEN skip8, THEN conjunct2, THEN conjunct2, THEN conjunct2, THEN conjunct1]
  note I3 = hooks_run_synchronously_and_a_throw_aborts [where s = ?q1 and r = 0,
     THEN skip8, THEN skip4, THEN conjunct1]
  from A hs have a: "fst (fire ?o ?s) = Inl (Thrown 2) \<and>
      notifications (snd (fire ?o ?s)) = notifications ?s \<and> \<not> isOpen (obj (snd (fire ?o ?s)) 1)"
    by simp
  from A' hs have a': "fst (close 0 ?s) = Some (Thrown 1) \<and> isClosing (obj (snd (close 0 ?s)) 0) \<and>
      timeouts (snd (close 0 ?s)) = []"
    by (simp add: obj_def)
  from B ht have b: "fst (close 0 ?t) = None \<and> calls (snd (close 0 ?t)) = [WillClose 0] \<and>
      timeouts (snd (close 0 ?t)) = [(1, 300, DestroyTask 0)]"
    by simp
  from B' ht have b': "promise (obj (snd (close 0 ?t)) 0) = Pending"
    by simp
  have c': "notifications (snd (close 0 ?t)) = notifications ?t"
    using ht by (simp add: close_notifications_eq obj_def)
  have "didClose (options (obj (snd (close 0 ?t)) 0)) = Throws 3"
    using ht by (simp add: obj_def)
  with C have "destroy 0 (snd (close 0 ?t)) =
      (Some (Thrown 3), (snd (close 0 ?t))\<lparr>calls := calls (snd (close 0 ?t)) @ [DidClose 0]\<rparr>)"
    by (rule mp)
  with c' have c: "fst (destroy 0 (snd (close 0 ?t))) = Some (Thrown 3) \<and>
      notifications (snd (destroy 0 (snd (close 0 ?t)))) = notifications ?t"
    by simp
  from D hv hs have d: "fst (fire ?v ?s) = Inl (Thrown 4) \<and>
      notifications (snd (fire ?v ?s)) = notifications ?s \<and> isOpen (obj (snd (fire ?v ?s)) 1) \<and>
      timeouts (snd (fire ?v ?s)) = [(1, 5000, CloseTask 1)]"
    by simp
  from E hu have e: "close 0 ?u = destroy 0 ?u1"
    by blast
  from F1 F2 F3 F4 hu have f: "fst (destroy 0 ?u1) = Some (Thrown 5) \<and>
      notifications (snd (destroy 0 ?u1)) = [] \<and> calls (snd (destroy 0 ?u1)) = [DidDestroy 0] \<and>
      \<not> attached (obj (snd (destroy 0 ?u1)) 0)"
    by (simp add: throws_def logged_def map_delete_def)
  from G hp hs have g: "fst (new_Notification ?p ?s) = Inr 1 \<and>
      isOpen (obj (snd (new_Notification ?p ?s)) 1) \<and>
      calls (snd (new_Notification ?p ?s)) = [WillOpen 1, DidOpen 1]"
    by simp
  from H hq have h: "close 0 ?q = destroy 0 ?q1"
    by blast
  from I1 I2 I3 hq have i: "fst (destroy 0 ?q1) = None \<and>
      calls (snd (destroy 0 ?q1)) = [DidClose 0, DidDestroy 0] \<and>
      notifications (snd (destroy 0 ?q1)) = []"
    by (simp add: throws_def logged_def map_delete_def)
  have j: "isOpen (obj ?s 0) \<and> \<not> isClosing (obj ?s 0)"
    and k: "isOpen (obj ?t 0) \<and> \<not> isClosing (obj ?t 0)"
    and l: "isOpen (obj ?u 0) \<and> \<not> isClosing (obj ?u 0) \<and> notifications ?u = [(ids 0, 0)]"
    using hs ht hu by blast+
  from a a' b b' c d f g i j k l show ?thesis
    unfolding Let_def e h by blast
qed

text \<open>C8 as stated fails: a throwing \<^verbatim>\<open>willOpen\<close> reaches the caller of \<^verbatim>\<open>fire\<close> and the
  instance never becomes open; a throwing \<^verbatim>\<open>willClose\<close> reaches the caller of \<^verbatim>\<open>close\<close>
  and the instance stays closing for ever, attached and in the mapping, with no destroy
  scheduled.\<close>

theorem throwing_hook_stops_the_transition:
  "(let w = defaultOptions\<lparr>willOpen := Throws 1\<rparr>;
        s = snd (step (Fire w) (init ids))
    in fst (step (Fire w) (init ids)) = Some (Thrown 1) \<and> \<not> isOpen (obj s 0) \<and>
       notifications s = []) \<and>
   (let s = run [Fire (defaultOptions\<lparr>willClose := Throws 2\<rparr>)] (init ids);
        s' = snd (step (Close 0) s)
    in isOpen (obj s 0) \<and> \<not> isClosing (obj s 0) \<and>
       fst (step (Close 0) s) = Some (Thrown 2) \<and> isClosing (obj s' 0) \<and>
       timeouts s' = [] \<and> notifications s' = [(ids 0, 0)] \<and> attached (obj s' 0))"
  by (simp add: eval_defs)

subsection \<open>C5: the continuation of the queue\<close>

text \<open>
  C5 at two queued requests of which the first has a \<^verbatim>\<open>preConfirm\<close> that returns a promise:
  the first is confirmed and its handler promise is rejected. \<^verbatim>\<open>processQueue\<close> attached
  its continuation with \<^verbatim>\<open>.then(cb)\<close> and no rejection callback, so the rejection of the
  completion signal runs nothing: \<^verbatim>\<open>isProcessing\<close> stays set, the second request stays in
  the queue and is never fired, also when \<^verbatim>\<open>processQueue\<close> is called again. The
  continuation does not run on this settlement, where C5 says draining continues.
\<close>

theorem rejection_halts_the_queue:
  "(let a = defaultOptions\<lparr>preConfirm := Some HPromise\<rparr>;
        b = defaultOptions\<lparr>timer := Some 5\<rparr>;
        s = run [Queue a, Queue b, Confirm 0, Settle 0 (Inl (Thrown 7))] (init ids);
        s' = run [Queue a, Queue b, Confirm 0, Settle 0 (Inl (Thrown 7)), ProcessQueue] (init ids)
    in promise (obj s 0) = Rejected (Thrown 7) \<and> promiseThen (obj s 0) \<and>
       isProcessing s \<and> queue s = [b] \<and> nextRef s = 1 \<and> microtasks s = [] \<and>
       isProcessing s' \<and> queue s' = [b] \<and> nextRef s' = 1)"
  by code_simp

text \<open>
  What holds of the continuation: between two events, the rejection of a handler promise
  changes neither \<^verbatim>\<open>isProcessing\<close> nor the queue and fires nothing; the fulfilment of a
  queued instance's completion signal (here by a confirm without handler) runs the
  continuation, which resets the flag when the queue is empty and otherwise takes the
  front request off the queue and fires it.
\<close>

theorem queue_continuation_runs_on_fulfilment_only:
  "microtasks s = [] \<longrightarrow>
     (let s' = snd (step (Settle k (Inl e)) s)
      in isProcessing s' = isProcessing s \<and> queue s' = queue s \<and> nextRef s' = nextRef s) \<and>
     (r < nextRef s \<and> promise (obj s r) = Pending \<and> promiseThen (obj s r) \<and>
      preConfirm (options (obj s r)) = None \<longrightarrow>
        (let s' = snd (step (Confirm r) s)
         in (queue s = [] \<longrightarrow> \<not> isProcessing s' \<and> nextRef s' = nextRef s \<and> queue s' = []) \<and>
            (\<forall>opts rest. queue s = opts # rest \<longrightarrow>
               isProcessing s' \<and> queue s' = rest \<and> nextRef s' = Suc (nextRef s) \<and>
               options (obj s' (nextRef s)) = opts)))"
proof (intro impI conjI)
  assume m: "microtasks s = []"
  from reject_step [OF m, of k e]
  show "let s' = snd (step (Settle k (Inl e)) s)
      in isProcessing s' = isProcessing s \<and> queue s' = queue s \<and> nextRef s' = nextRef s"
    by (simp add: Let_def mgr_def)
next
  assume m: "microtasks s = []"
  assume a: "r < nextRef s \<and> promise (obj s r) = Pending \<and> promiseThen (obj s r) \<and>
      preConfirm (options (obj s r)) = None"
  then have "snd (step (Confirm r) s) =
      drain (snd (close r (resolve r \<lparr>isConfirmed = Some True, isDenied = None, value = None\<rparr> s)))"
    by (simp add: step_snd dispatch_def confirm_plain)
  from continuation_step [OF m _ _ _ this] a
  show "let s' = snd (step (Confirm r) s)
         in (queue s = [] \<longrightarrow> \<not> isProcessing s' \<and> nextRef s' = nextRef s \<and> queue s' = []) \<and>
            (\<forall>opts rest. queue s = opts # rest \<longrightarrow>
               isProcessing s' \<and> queue s' = rest \<and> nextRef s' = Suc (nextRef s) \<and>
               options (obj s' (nextRef s)) = opts)"
    by (simp add: Let_def obj_def)
qed

text \<open>That theorem at two queued requests: confirming the first admits the second; and at
  the rejection above, which leaves flag, queue and store as they were.\<close>

theorem queue_continuation_runs_on_fulfilment_only_witness:
  "(let b = defaultOptions\<lparr>timer := Some 5\<rparr>;
        s = run [Queue defaultOptions, Queue b] (init ids);
        s' = snd (step (Confirm 0) s);
        t = run [Queue (defaultOptions\<lparr>preConfirm := Some HPromise\<rparr>), Queue b, Confirm 0] (init ids);
        t' = snd (step (Settle 0 (Inl (Thrown 7))) t)
    in microtasks s = [] \<and> promise (obj s 0) = Pending \<and> promiseThen (obj s 0) \<and>
       nextRef s = 1 \<and> queue s = [b] \<and> isProcessing s \<and>
       isProcessing s' \<and> queue s' = [] \<and> nextRef s' = 2 \<and> options (obj s' 1) = b \<and>
       microtasks t = [] \<and> deferreds t = [(0, ConfirmAction)] \<and> isProcessing t \<and> queue t = [b] \<and>
       nextRef t = 1 \<and>
       isProcessing t' \<and> queue t' = [b] \<and> nextRef t' = 1)"
proof -
  let ?b = "defaultOptions\<lparr>timer := Some 5\<rparr>"
  let ?s = "run [Queue defaultOptions, Queue ?b] (init ids)"
  let ?t = "run [Queue (defaultOptions\<lparr>preConfirm := Some HPromise\<rparr>), Queue ?b, Confirm 0] (init ids)"
  have hs: "microtasks ?s = [] \<and> 0 < nextRef ?s \<and> promise (obj ?s 0) = Pending \<and>
      promiseThen (obj ?s 0) \<and> preConfirm (options (obj ?s 0)) = None \<and>
      nextRef ?s = 1 \<and> queue ?s = [?b] \<and> isProcessing ?s"
    by code_simp
  have ht: "microtasks ?t = [] \<and> deferreds ?t = [(0, ConfirmAction)] \<and> isProcessing ?t \<and>
      queue ?t = [?b] \<and> nextRef ?t = 1"
    by code_simp
  from queue_continuation_runs_on_fulfilment_only [where s = ?s and r = 0] hs
  have a: "isProcessing (snd (step (Confirm 0) ?s)) \<and> queue (snd (step (Confirm 0) ?s)) = [] \<and>
      nextRef (snd (step (Confirm 0) ?s)) = 2 \<and> options (obj (snd (step (Confirm 0) ?s)) 1) = ?b"
    by (simp add: Let_def)
  from queue_continuation_runs_on_fulfilment_only [where s = ?t and k = 0 and e = "Thrown 7"] ht
  have b: "isProcessing (snd (step (Settle 0 (Inl (Thrown 7))) ?t)) \<and>
      queue (snd (step (Settle 0 (Inl (Thrown 7))) ?t)) = [?b] \<and>
      nextRef (snd (step (Settle 0 (Inl (Thrown 7))) ?t)) = 1"
    by (simp add: Let_def)
  from hs ht a b show ?thesis by (simp add: Let_def)
qed

subsection \<open>C3: which instance a \<^verbatim>\<open>fire\<close> beyond the bound closes\<close>

text \<open>
  C3 at seven \<^verbatim>\<open>fire\<close> calls in a row with the default options (animation on, no timer
  running out in between). The sixth call closes the first-submitted instance, as the claim
  says; that instance is closing from then on and stays in the mapping until its \<^verbatim>\<open>destroy\<close>
  runs, 300 ms later. The seventh call takes \<^verbatim>\<open>this.notifications.values().next().value\<close>,
  which is this closing instance; its \<^verbatim>\<open>close()\<close> returns at the guard, and the earliest
  instance that is still open, the second submitted, stays open: six entries are open with
  \<^verbatim>\<open>maxNotifications = 5\<close>, and the only task scheduled is the destroy of the first.
\<close>

theorem seventh_fire_closes_nothing:
  "(let s6 = run [Fire defaultOptions, Fire defaultOptions, Fire defaultOptions,
                  Fire defaultOptions, Fire defaultOptions, Fire defaultOptions] (init ids);
        s7 = snd (step (Fire defaultOptions) s6)
    in maxNotifications s6 = 5 \<and> map snd (notifications s6) = [0, 1, 2, 3, 4, 5] \<and>
       isClosing (obj s6 0) \<and> map snd (openEntries s6) = [1, 2, 3, 4, 5] \<and>
       fst (step (Fire defaultOptions) s6) = None \<and>
       map snd (notifications s7) = [0, 1, 2, 3, 4, 5, 6] \<and>
       isOpen (obj s7 1) \<and> \<not> isClosing (obj s7 1) \<and>
       map snd (openEntries s7) = [1, 2, 3, 4, 5, 6] \<and>
       timeouts s7 = [(1, 300, DestroyTask 0)])"
  by (simp add: eval_defs openEntries_def)

subsection \<open>C2: the bound on the mapping\<close>




subsection \<open>C4: queued requests are admitted one at a time, in order of arrival\<close>

text \<open>
  C4, for every state \<open>s\<close> that the manager reaches from its initial state by any list of
  events, and every further event. \<open>Queue opts\<close> is the body of the prototype function
  \<^verbatim>\<open>queue(options)\<close> run on the manager; a queued instance is one that \<^verbatim>\<open>processQueue\<close> has
  fired and given its continuation.

  \<^item> Of two queued instances the one fired first is fulfilled: \<^verbatim>\<open>fire\<close> was called on the
    second only after the completion signal of the first had settled.
  \<^item> No two queued instances are open and not closing at the same time.
  \<^item> While a queued instance is not fulfilled, \<^verbatim>\<open>isProcessing\<close> is set, so that \<^verbatim>\<open>processQueue\<close>
    returns at its guard and fires nothing.
  \<^item> The pending queue is what is left of the requests in order of arrival: the requests
    enqueued so far are the consumed ones followed by \<^verbatim>\<open>this.queue\<close>.
  \<^item> One turn of the event loop either leaves the queue as it is (with the request of the
    event appended) and creates no queued instance, or takes exactly the head of the queue
    and fires it as the next instance, and then every instance queued before is fulfilled.
\<close>

theorem queued_requests_are_admitted_one_at_a_time_in_arrival_order:
  "(let s = run evs (init rnd); s' = snd (step ev s)
    in (r1 < r2 \<and> queued s r1 \<and> queued s r2 \<longrightarrow> fulfilled (promise (obj s r1))) \<and>
       (r1 \<noteq> r2 \<and> queued s r1 \<and> queued s r2 \<longrightarrow> \<not> (live s r1 \<and> live s r2)) \<and>
       (queued s r1 \<and> \<not> fulfilled (promise (obj s r1)) \<longrightarrow> isProcessing s) \<and>
       (\<exists>consumed. enqueued evs = consumed @ queue s) \<and>
       ((queue s' = queue s @ pushed ev \<and> (\<forall>r. queued s' r \<longleftrightarrow> queued s r)) \<or>
        (\<exists>opts. queue s @ pushed ev = opts # queue s' \<and> nextRef s' = Suc (nextRef s) \<and>
           options (obj s' (nextRef s)) = opts \<and> isProcessing s' \<and>
           (\<forall>r. queued s r \<longrightarrow> queued s' r \<and> fulfilled (promise (obj s' r))))))"
proof -
  let ?s = "run evs (init rnd)"
  have s: "serial ?s" by (rule serial_reachable)
  have m: "microtasks ?s = []" by simp
  have order: "fulfilled (promise (obj ?s a))" if "a < b" "queued ?s a" "queued ?s b" for a b
    using serialD1 [OF s that] by (simp add: obj_def)
  have closing: "\<not> live ?s a" if "a < b" "queued ?s a" "queued ?s b" for a b
  proof -
    from that(2) have "a < nextRef ?s" by (simp add: queued_def)
    with serialD2 [OF s this] order [OF that] show ?thesis
      by (auto simp add: live_def obj_def)
  qed
  have c1: "r1 < r2 \<and> queued ?s r1 \<and> queued ?s r2 \<longrightarrow> fulfilled (promise (obj ?s r1))"
    using order by blast
  have c2: "r1 \<noteq> r2 \<and> queued ?s r1 \<and> queued ?s r2 \<longrightarrow> \<not> (live ?s r1 \<and> live ?s r2)"
    using closing [of r1 r2] closing [of r2 r1] by (cases r1 r2 rule: linorder_cases) auto
  have c3: "queued ?s r1 \<and> \<not> fulfilled (promise (obj ?s r1)) \<longrightarrow> isProcessing ?s"
    using serialD4 [OF s, of r1] by (auto simp add: obj_def)
  have c4: "\<exists>consumed. enqueued evs = consumed @ queue ?s"
    by (rule enqueued_reachable)
  note c5 = admission_step [OF s m refl, of ev]
  from c1 c2 c3 c4 c5 show ?thesis
    unfolding Let_def by (intro conjI)
qed

text \<open>The theorem at three queued requests of which the first has been confirmed: the second
  is open, the third waits; confirming the second admits the third.\<close>

theorem queued_requests_are_admitted_one_at_a_time_in_arrival_order_witness:
  "(let a = defaultOptions; b = defaultOptions\<lparr>timer := Some 5\<rparr>;
        c = defaultOptions\<lparr>animation := False\<rparr>;
        evs = [Queue a, Queue b, Queue c, Confirm 0];
        s = run evs (init ids); s' = snd (step (Confirm 1) s)
    in queued s 0 \<and> queued s 1 \<and> live s 1 \<and> \<not> fulfilled (promise (obj s 1)) \<and>
       fulfilled (promise (obj s 0)) \<and> \<not> live s 0 \<and> isProcessing s \<and>
       enqueued evs = [a, b, c] \<and> queue s = [c] \<and> nextRef s = 2 \<and>
       queue s' = [] \<and> nextRef s' = 3 \<and> options (obj s' 2) = c \<and>
       queued s' 1 \<and> fulfilled (promise (obj s' 1)))"
proof -
  let ?a = "defaultOptions"
  let ?b = "defaultOptions\<lparr>timer := Some 5\<rparr>"
  let ?c = "defaultOptions\<lparr>animation := False\<rparr>"
  let ?evs = "[Queue ?a, Queue ?b, Queue ?c, Confirm 0]"
  let ?s = "run ?evs (init ids)"
  let ?s' = "snd (step (Confirm 1) ?s)"
  have h: "(0::nat) < 1 \<and> queued ?s 0 \<and> queued ?s 1 \<and> live ?s 1 \<and>
      \<not> fulfilled (promise (obj ?s 1)) \<and> queue ?s = [?c] \<and> nextRef ?s = 2 \<and>
      pushed (Confirm 1) = [] \<and> enqueued ?evs = [?a, ?b, ?c]"
    by (simp add: eval_defs queued_def live_def fulfilled_def pushed_def enqueued_def)
  have h': "queue ?s' = []"
    by (simp add: eval_defs)
  note A = queued_requests_are_admitted_one_at_a_time_in_arrival_order
    [where evs = ?evs and rnd = ids and ev = "Confirm 1" and ?r1.0 = 0 and ?r2.0 = 1,
     unfolded Let_def]
  note B = queued_requests_are_admitted_one_at_a_time_in_arrival_order
    [where evs = ?evs and rnd = ids and ev = "Confirm 1" and ?r1.0 = 1 and ?r2.0 = 0,
     unfolded Let_def]
  from A h have a1: "fulfilled (promise (obj ?s 0))" by blast
  from A h have a2: "\<not> live ?s 0" by auto
  from B h have b1: "isProcessing ?s" by blast
  from A have "(queue ?s' = queue ?s @ pushed (Confirm 1) \<and> (\<forall>r. queued ?s' r \<longleftrightarrow> queued ?s r)) \<or>
      (\<exists>opts. queue ?s @ pushed (Confirm 1) = opts # queue ?s' \<and> nextRef ?s' = Suc (nextRef ?s) \<and>
         options (obj ?s' (nextRef ?s)) = opts \<and> isProcessing ?s' \<and>
         (\<forall>r. queued ?s r \<longrightarrow> queued ?s' r \<and> fulfilled (promise (obj ?s' r))))"
    by blast
  with h h' have a3: "nextRef ?s' = 3 \<and> options (obj ?s' 2) = ?c \<and> queued ?s' 1 \<and>
      fulfilled (promise (obj ?s' 1))"
    by auto
  from h h' a1 a2 a3 b1 show ?thesis
    unfolding Let_def by blast
qed

end
